theory Spec2Isabelle
  imports Main
begin

section \<open>JSON values and the platform encoder\<close>

text \<open>
  The values a caller can hand to the builder. A JavaScript number is finite or one of
  \<open>NaN\<close>, \<open>Infinity\<close>, \<open>-Infinity\<close>; the finite ones are modelled by the integers
  (the decimal rendering of a fraction is the platform's and plays no part below),
  printed in decimal digits, as the platform prints an integer below \<open>10^21\<close>; the
  numbers of the examples are small, and no other statement depends on the digits.
  \<open>Circular\<close> stands for a reference from inside an array or an object back to an
  enclosing one: the only way a value of the TypeScript type \<open>JsonValue\<close> makes
  \<open>JSON.stringify\<close> throw. An object is the list of its own properties in enumeration
  order.
\<close>

datatype jsnum = Finite int | NaN | PosInfinity | NegInfinity

datatype jsprim = PNull | PBool bool | PNum jsnum | PStr string

datatype jsvalue =
    Prim jsprim
  | Arr "jsvalue list"
  | Obj "(string \<times> jsvalue) list"
  | Circular

datatype error = CircularStructure | NotAFunction

datatype 'a outcome = Returned 'a | Threw error

definition dq :: char where
  "dq = CHR 0x22"

definition bs :: char where
  "bs = CHR 0x5C"

fun digits :: "nat \<Rightarrow> string" where
  "digits n =
     (if n < 10 then [''0123456789'' ! n] else digits (n div 10) @ [''0123456789'' ! (n mod 10)])"

definition show_int :: "int \<Rightarrow> string" where
  "show_int i = (if i < 0 then CHR ''-'' # digits (nat (- i)) else digits (nat i))"

definition hexdigit :: "nat \<Rightarrow> char" where
  "hexdigit n = ''0123456789abcdef'' ! n"

text \<open>The escaping \<open>JSON.stringify\<close> applies to one code unit of a string.\<close>

definition escape_char :: "char \<Rightarrow> string" where
  "escape_char c =
     (if c = dq then [bs, dq]
      else if c = bs then [bs, bs]
      else if c = CHR 0x08 then [bs, CHR ''b'']
      else if c = CHR 0x09 then [bs, CHR ''t'']
      else if c = CHR 0x0A then [bs, CHR ''n'']
      else if c = CHR 0x0C then [bs, CHR ''f'']
      else if c = CHR 0x0D then [bs, CHR ''r'']
      else if (of_char c :: nat) < 32
        then [bs, CHR ''u'', CHR ''0'', CHR ''0'',
              hexdigit (of_char c div 16), hexdigit (of_char c mod 16)]
      else [c])"

definition quote :: "string \<Rightarrow> string" where
  "quote s = dq # concat (map escape_char s) @ [dq]"

fun join :: "string \<Rightarrow> string list \<Rightarrow> string" where
  "join sep [] = []"
| "join sep [x] = x"
| "join sep (x # y # ys) = x @ sep @ join sep (y # ys)"

definition stringify_num :: "jsnum \<Rightarrow> string" where
  "stringify_num x = (case x of Finite i \<Rightarrow> show_int i | _ \<Rightarrow> ''null'')"

definition stringify_prim :: "jsprim \<Rightarrow> string" where
  "stringify_prim p =
     (case p of
        PNull \<Rightarrow> ''null''
      | PBool b \<Rightarrow> (if b then ''true'' else ''false'')
      | PNum x \<Rightarrow> stringify_num x
      | PStr s \<Rightarrow> quote s)"

text \<open>
  \<open>JSON.stringify\<close> without indentation: the text of the value, or the \<open>TypeError\<close> it
  throws on a circular structure.
\<close>

fun stringify :: "jsvalue \<Rightarrow> error + string"
  and stringify_items :: "jsvalue list \<Rightarrow> error + string list"
  and stringify_props :: "(string \<times> jsvalue) list \<Rightarrow> error + string list" where
  "stringify (Prim p) = Inr (stringify_prim p)"
| "stringify (Arr vs) =
     (case stringify_items vs of Inl e \<Rightarrow> Inl e | Inr ts \<Rightarrow> Inr (''['' @ join '','' ts @ '']''))"
| "stringify (Obj kvs) =
     (case stringify_props kvs of Inl e \<Rightarrow> Inl e | Inr ts \<Rightarrow> Inr (''{'' @ join '','' ts @ ''}''))"
| "stringify Circular = Inl CircularStructure"
| "stringify_items [] = Inr []"
| "stringify_items (v # vs) =
     (case stringify v of Inl e \<Rightarrow> Inl e
      | Inr t \<Rightarrow> (case stringify_items vs of Inl e \<Rightarrow> Inl e | Inr ts \<Rightarrow> Inr (t # ts)))"
| "stringify_props [] = Inr []"
| "stringify_props ((k, v) # kvs) =
     (case stringify v of Inl e \<Rightarrow> Inl e
      | Inr t \<Rightarrow> (case stringify_props kvs of Inl e \<Rightarrow> Inl e
                 | Inr ts \<Rightarrow> Inr ((quote k @ '':'' @ t) # ts)))"

section \<open>Builders\<close>

text \<open>
  The builders live in an arena: a handle is an index, \<open>new\<close> appends. Every builder
  carries the fields of the base class \<open>Builder\<close>, the flag of the object and array
  builders (\<open>firstPropertyInserted\<close>, \<open>firstItemInserted\<close>), and its \<open>PassThrough\<close>
  stream: the text written or pushed into the stream so far, whether the stream was
  ended (\<open>stream.end()\<close> or \<open>push(null)\<close>), and the sources piped into it, each with
  the number of characters the pipe has copied already. A source that is piped carries the
  \<open>end\<close> listener that \<open>consumeChildBuilder\<close> registers together with the pipe.
\<close>

datatype kind = JsonK | ObjectK | ArrayK | ValueK

record builder =
  kind :: kind
  parent :: "nat option"
  queue :: "nat list"
  current :: "nat option"
  endScheduled :: bool
  firstInserted :: bool
  written :: string
  ended :: bool
  piped :: "(nat \<times> nat) list"

type_synonym heap = "builder list"

definition upd :: "nat \<Rightarrow> (builder \<Rightarrow> builder) \<Rightarrow> heap \<Rightarrow> heap" where
  "upd n f s = s[n := f (s ! n)]"

definition new_builder :: "kind \<Rightarrow> nat option \<Rightarrow> heap \<Rightarrow> nat \<times> heap" where
  "new_builder k p s =
     (length s,
      s @ [\<lparr>kind = k, parent = p, queue = [], current = None, endScheduled = False,
             firstInserted = False, written = [], ended = False, piped = []\<rparr>])"

definition createBuilder :: heap where
  "createBuilder = snd (new_builder JsonK None [])"

subsection \<open>The base class\<close>

definition consumeChildBuilder :: "nat \<Rightarrow> heap \<Rightarrow> heap" where
  "consumeChildBuilder n s =
     (case current (s ! n) of
        Some c \<Rightarrow> s
      | None \<Rightarrow>
          (case queue (s ! n) of
             [] \<Rightarrow> (if endScheduled (s ! n) then upd n (\<lambda>b. b\<lparr>ended := True\<rparr>) s else s)
           | c # q \<Rightarrow>
               upd n (\<lambda>b. b\<lparr>queue := q, current := Some c, piped := piped b @ [(c, 0)]\<rparr>) s))"

definition addChildBuilder :: "nat \<Rightarrow> nat \<Rightarrow> heap \<Rightarrow> heap" where
  "addChildBuilder n child s =
     (if endScheduled (s ! n) then s
      else consumeChildBuilder n (upd n (\<lambda>b. b\<lparr>queue := queue b @ [child]\<rparr>) s))"

definition scheduleEnd :: "nat \<Rightarrow> heap \<Rightarrow> heap" where
  "scheduleEnd n s = consumeChildBuilder n (upd n (\<lambda>b. b\<lparr>endScheduled := True\<rparr>) s)"

subsection \<open>ValueStreamBuilder\<close>

definition rawValue :: "nat \<Rightarrow> string \<Rightarrow> heap \<Rightarrow> heap" where
  "rawValue b data s = upd b (\<lambda>x. x\<lparr>written := written x @ data, ended := True\<rparr>) s"

definition valueV :: "nat \<Rightarrow> jsvalue \<Rightarrow> heap \<Rightarrow> nat outcome \<times> heap" where
  "valueV b data s =
     (case stringify data of
        Inl e \<Rightarrow> (Threw e, s)
      | Inr t \<Rightarrow> (Returned b, rawValue b t s))"

text \<open>\<open>new ValueStreamBuilder(p).rawValue(data)\<close>\<close>

definition new_raw :: "nat option \<Rightarrow> string \<Rightarrow> heap \<Rightarrow> nat \<times> heap" where
  "new_raw p data s = (case new_builder ValueK p s of (b, s1) \<Rightarrow> (b, rawValue b data s1))"

subsection \<open>JsonStreamBuilder\<close>

definition valueJ :: "nat \<Rightarrow> jsvalue \<Rightarrow> heap \<Rightarrow> nat option outcome \<times> heap" where
  "valueJ n data s =
     (case new_builder ValueK (parent (s ! n)) s of
        (b, s1) \<Rightarrow>
          (case valueV b data s1 of
             (Threw e, s2) \<Rightarrow> (Threw e, s2)
           | (Returned b', s2) \<Rightarrow> (Returned (Some n), scheduleEnd n (addChildBuilder n b' s2))))"

definition endJ :: "nat \<Rightarrow> heap \<Rightarrow> nat option outcome \<times> heap" where
  "endJ n s = (case scheduleEnd n s of s1 \<Rightarrow> (Returned (parent (s1 ! n)), s1))"

definition primitive :: "nat \<Rightarrow> jsprim \<Rightarrow> heap \<Rightarrow> nat option outcome \<times> heap" where
  "primitive n data s =
     (case valueJ n (Prim data) s of
        (Threw e, s1) \<Rightarrow> (Threw e, s1)
      | (Returned _, s1) \<Rightarrow> endJ n s1)"

text \<open>The constructors of the object and the array builder enqueue the opening delimiter.\<close>

definition new_object :: "nat option \<Rightarrow> heap \<Rightarrow> nat \<times> heap" where
  "new_object p s =
     (case new_builder ObjectK p s of
        (b, s1) \<Rightarrow> (case new_raw (Some b) ''{'' s1 of (v, s2) \<Rightarrow> (b, addChildBuilder b v s2)))"

definition new_array :: "nat option \<Rightarrow> heap \<Rightarrow> nat \<times> heap" where
  "new_array p s =
     (case new_builder ArrayK p s of
        (b, s1) \<Rightarrow> (case new_raw (Some b) ''['' s1 of (v, s2) \<Rightarrow> (b, addChildBuilder b v s2)))"

definition objectJ ::
  "nat \<Rightarrow> (string \<times> jsvalue) list option \<Rightarrow> heap \<Rightarrow> nat option outcome \<times> heap" where
  "objectJ n data s =
     (case data of
        Some kvs \<Rightarrow> valueJ n (Obj kvs) s
      | None \<Rightarrow>
          (case new_object (parent (s ! n)) s of
             (b, s1) \<Rightarrow> (Returned (Some b), scheduleEnd n (addChildBuilder n b s1))))"

definition arrayJ :: "nat \<Rightarrow> jsvalue list option \<Rightarrow> heap \<Rightarrow> nat option outcome \<times> heap" where
  "arrayJ n data s =
     (case data of
        Some vs \<Rightarrow> valueJ n (Arr vs) s
      | None \<Rightarrow>
          (case new_array (parent (s ! n)) s of
             (b, s1) \<Rightarrow> (Returned (Some b), scheduleEnd n (addChildBuilder n b s1))))"

subsection \<open>ObjectStreamBuilder and ArrayStreamBuilder\<close>

text \<open>
  The optional parameter \<open>value\<close> of \<open>addProperty\<close> and \<open>addItem\<close>: left out, passed as
  \<open>undefined\<close>, or a value. The code tests \<open>value !== undefined\<close>, and a parameter that
  was left out reads as \<open>undefined\<close>.
\<close>

datatype arg = Omitted | Undefined | Given jsvalue

definition not_undefined :: "arg \<Rightarrow> bool" where
  "not_undefined a = (case a of Given v \<Rightarrow> True | _ \<Rightarrow> False)"

definition insertCommaIfNeeded :: "nat \<Rightarrow> heap \<Rightarrow> heap" where
  "insertCommaIfNeeded n s =
     (if \<not> firstInserted (s ! n) then upd n (\<lambda>b. b\<lparr>firstInserted := True\<rparr>) s
      else (case new_raw (Some n) '','' s of (v, s1) \<Rightarrow> addChildBuilder n v s1))"

definition pushProperty :: "nat \<Rightarrow> string \<Rightarrow> jsvalue \<Rightarrow> heap \<Rightarrow> nat option outcome \<times> heap" where
  "pushProperty n key v s =
     (case new_builder ValueK (Some n) (insertCommaIfNeeded n s) of
        (b, s1) \<Rightarrow>
          (case stringify v of
             Inl e \<Rightarrow> (Threw e, s1)
           | Inr t \<Rightarrow>
               (Returned (Some n),
                addChildBuilder n b (rawValue b (dq # key @ dq # '':'' @ t) s1))))"

definition addProperty :: "nat \<Rightarrow> string \<Rightarrow> arg \<Rightarrow> heap \<Rightarrow> nat option outcome \<times> heap" where
  "addProperty n key a s =
     (if not_undefined a then pushProperty n key (case a of Given v \<Rightarrow> v) s
      else
        (case new_builder JsonK (Some n) s of
           (j, s1) \<Rightarrow>
             (case new_raw (Some n) (dq # key @ dq # '':'') (insertCommaIfNeeded n s1) of
                (v, s2) \<Rightarrow> (Returned (Some j), addChildBuilder n j (addChildBuilder n v s2)))))"

definition endO :: "nat \<Rightarrow> heap \<Rightarrow> nat option outcome \<times> heap" where
  "endO n s =
     (case new_raw (Some n) ''}'' s of
        (v, s1) \<Rightarrow>
          (case scheduleEnd n (addChildBuilder n v s1) of s2 \<Rightarrow> (Returned (parent (s2 ! n)), s2)))"

definition pushItem :: "nat \<Rightarrow> jsvalue \<Rightarrow> heap \<Rightarrow> nat option outcome \<times> heap" where
  "pushItem n v s =
     (case new_builder ValueK (Some n) (insertCommaIfNeeded n s) of
        (b, s1) \<Rightarrow>
          (case valueV b v s1 of
             (Threw e, s2) \<Rightarrow> (Threw e, s2)
           | (Returned b', s2) \<Rightarrow> (Returned (Some n), addChildBuilder n b' s2)))"

definition addItem :: "nat \<Rightarrow> arg \<Rightarrow> heap \<Rightarrow> nat option outcome \<times> heap" where
  "addItem n a s =
     (if not_undefined a then pushItem n (case a of Given v \<Rightarrow> v) s
      else
        (case new_builder JsonK (Some n) s of
           (j, s1) \<Rightarrow> (Returned (Some j), addChildBuilder n j (insertCommaIfNeeded n s1))))"

definition endA :: "nat \<Rightarrow> heap \<Rightarrow> nat option outcome \<times> heap" where
  "endA n s =
     (case new_raw (Some n) '']'' s of
        (v, s1) \<Rightarrow>
          (case scheduleEnd n (addChildBuilder n v s1) of s2 \<Rightarrow> (Returned (parent (s2 ! n)), s2)))"

subsection \<open>The public methods, by the class of the receiver\<close>

datatype op =
    Primitive jsprim
  | ObjectOp "(string \<times> jsvalue) list option"
  | ArrayOp "jsvalue list option"
  | AddProperty string arg
  | AddItem arg
  | EndOp

text \<open>A method the receiver's class does not have is a \<open>TypeError\<close> of the platform.\<close>

definition call :: "nat \<Rightarrow> op \<Rightarrow> heap \<Rightarrow> nat option outcome \<times> heap" where
  "call n f s =
     (case (kind (s ! n), f) of
        (JsonK, Primitive p) \<Rightarrow> primitive n p s
      | (JsonK, ObjectOp d) \<Rightarrow> objectJ n d s
      | (JsonK, ArrayOp d) \<Rightarrow> arrayJ n d s
      | (JsonK, EndOp) \<Rightarrow> endJ n s
      | (ObjectK, AddProperty k a) \<Rightarrow> addProperty n k a s
      | (ObjectK, EndOp) \<Rightarrow> endO n s
      | (ArrayK, AddItem a) \<Rightarrow> addItem n a s
      | (ArrayK, EndOp) \<Rightarrow> endA n s
      | _ \<Rightarrow> (Threw NotAFunction, s))"

subsection \<open>The streams at work\<close>

text \<open>
  What the platform does between two calls: a pipe copies what its source holds and the
  pipe has not copied yet (\<open>flow\<close>), and a source that was ended and is copied to its last
  character emits \<open>end\<close>, which unpipes it and runs the listener of
  \<open>consumeChildBuilder\<close>: \<open>this.current = null; this.consumeChildBuilder()\<close>
  (\<open>childEnd\<close>).
\<close>

definition flow :: "nat \<Rightarrow> nat \<Rightarrow> heap \<Rightarrow> heap" where
  "flow d c s =
     (case map_of (piped (s ! d)) c of
        None \<Rightarrow> s
      | Some k \<Rightarrow>
          upd d (\<lambda>b. b\<lparr>written := written b @ drop k (written (s ! c)),
                        piped := map (\<lambda>(c', k'). (c', if c' = c then length (written (s ! c)) else k'))
                                     (piped b)\<rparr>) s)"

definition childEnd :: "nat \<Rightarrow> nat \<Rightarrow> heap \<Rightarrow> heap" where
  "childEnd d c s =
     (case map_of (piped (s ! d)) c of
        None \<Rightarrow> s
      | Some k \<Rightarrow>
          if ended (s ! c) \<and> k = length (written (s ! c))
          then consumeChildBuilder d
                 (upd d (\<lambda>b. b\<lparr>current := None,
                               piped := filter (\<lambda>(c', k'). c' \<noteq> c) (piped b)\<rparr>) s)
          else s)"

datatype event = Call nat op | Flow nat nat | ChildEnd nat nat

definition fire :: "event \<Rightarrow> heap \<Rightarrow> heap" where
  "fire e s =
     (case e of
        Call n f \<Rightarrow> (if n < length s then snd (call n f s) else s)
      | Flow d c \<Rightarrow> (if d < length s \<and> c < length s then flow d c s else s)
      | ChildEnd d c \<Rightarrow> (if d < length s \<and> c < length s then childEnd d c s else s))"

definition run :: "event list \<Rightarrow> heap \<Rightarrow> heap" where
  "run es s = foldl (\<lambda>s e. fire e s) s es"

text \<open>
  One round of the platform's work on a builder (copy from the piped source, then its
  \<open>end\<close> if it is due), \<open>k\<close> such rounds, and the work done as far as it goes: every
  builder, from the youngest to the root, copies its current child and takes the next one
  as long as the child has ended.
\<close>

fun pump_from :: "nat \<Rightarrow> (nat \<times> nat) list \<Rightarrow> heap \<Rightarrow> heap" where
  "pump_from d [] s = s"
| "pump_from d ((c, k) # _) s = fire (ChildEnd d c) (fire (Flow d c) s)"

definition pump :: "nat \<Rightarrow> heap \<Rightarrow> heap" where
  "pump d s = pump_from d (piped (s ! d)) s"

fun pumps :: "nat \<Rightarrow> nat \<Rightarrow> heap \<Rightarrow> heap" where
  "pumps 0 d s = s"
| "pumps (Suc k) d s = pumps k d (pump d s)"

definition settle_at :: "nat \<Rightarrow> heap \<Rightarrow> heap" where
  "settle_at d s = pumps (Suc (length (queue (s ! d)))) d s"

fun settle_from :: "nat \<Rightarrow> heap \<Rightarrow> heap" where
  "settle_from 0 s = s"
| "settle_from (Suc d) s = settle_from d (settle_at d s)"

definition settle :: "heap \<Rightarrow> heap" where
  "settle s = settle_from (length s) s"

text \<open>
  \<open>toJson\<close> collects the chunks of a stream until its end and hands their concatenation
  to \<open>JSON.parse\<close>; \<open>collected\<close> is that text, once the stream has ended.
\<close>

definition collected :: "heap \<Rightarrow> nat \<Rightarrow> string option" where
  "collected s n = (if ended (s ! n) then Some (written (s ! n)) else None)"

text \<open>
  A fluent chain \<open>b.f1(...).f2(...)...\<close>: every call goes to what the call before it
  returned; a call on \<open>null\<close> is a \<open>TypeError\<close>, and an exception ends the chain.
\<close>

fun chain :: "op list \<Rightarrow> nat option outcome \<times> heap \<Rightarrow> nat option outcome \<times> heap" where
  "chain [] r = r"
| "chain (f # fs) (Returned (Some n), s) = chain fs (call n f s)"
| "chain (f # fs) (Returned None, s) = (Threw NotAFunction, s)"
| "chain (f # fs) (Threw e, s) = (Threw e, s)"

section \<open>Local views and the invariant\<close>

text \<open>
  Every method of the base class changes one builder only; these are its methods as
  functions on that builder.
\<close>

definition consume_b :: "builder \<Rightarrow> builder" where
  "consume_b b =
     (case current b of
        Some c \<Rightarrow> b
      | None \<Rightarrow>
          (case queue b of
             [] \<Rightarrow> (if endScheduled b then b\<lparr>ended := True\<rparr> else b)
           | c # q \<Rightarrow> b\<lparr>queue := q, current := Some c, piped := piped b @ [(c, 0)]\<rparr>))"

definition add_b :: "nat \<Rightarrow> builder \<Rightarrow> builder" where
  "add_b c b = (if endScheduled b then b else consume_b (b\<lparr>queue := queue b @ [c]\<rparr>))"

definition end_b :: "builder \<Rightarrow> builder" where
  "end_b b = consume_b (b\<lparr>endScheduled := True\<rparr>)"

definition raw_rec :: "nat option \<Rightarrow> string \<Rightarrow> builder" where
  "raw_rec p data =
     \<lparr>kind = ValueK, parent = p, queue = [], current = None, endScheduled = False,
      firstInserted = False, written = data, ended = True, piped = []\<rparr>"

definition fresh_rec :: "kind \<Rightarrow> nat option \<Rightarrow> builder" where
  "fresh_rec k p =
     \<lparr>kind = k, parent = p, queue = [], current = None, endScheduled = False,
      firstInserted = False, written = [], ended = False, piped = []\<rparr>"

text \<open>\<open>insertCommaIfNeeded\<close> on the builder itself, and the value builder it creates.\<close>

definition comma_b :: "nat \<Rightarrow> builder \<Rightarrow> builder" where
  "comma_b c b = (if \<not> firstInserted b then b\<lparr>firstInserted := True\<rparr> else add_b c b)"

definition comma_new :: "nat \<Rightarrow> heap \<Rightarrow> heap" where
  "comma_new n s = (if \<not> firstInserted (s ! n) then [] else [raw_rec (Some n) '',''])"

text \<open>What a public method does to its receiver: a composition of these steps.\<close>

inductive basic :: "(builder \<Rightarrow> builder) \<Rightarrow> bool" where
  basic_id: "basic (\<lambda>b. b)"
| basic_add: "basic F \<Longrightarrow> basic (\<lambda>b. add_b c (F b))"
| basic_end: "basic F \<Longrightarrow> basic (\<lambda>b. end_b (F b))"
| basic_comma: "basic F \<Longrightarrow> basic (\<lambda>b. comma_b c (F b))"

definition shape :: "nat \<Rightarrow> heap \<Rightarrow> heap \<Rightarrow> bool" where
  "shape n s s' \<longleftrightarrow> (\<exists>F t. basic F \<and> s' = upd n F s @ t)"

text \<open>
  The methods a class has, the value a call has to encode, and whether
  \<open>JSON.stringify\<close> can encode it.
\<close>

definition has_method :: "kind \<Rightarrow> op \<Rightarrow> bool" where
  "has_method k f =
     (case (k, f) of
        (JsonK, Primitive p) \<Rightarrow> True
      | (JsonK, ObjectOp d) \<Rightarrow> True
      | (JsonK, ArrayOp d) \<Rightarrow> True
      | (JsonK, EndOp) \<Rightarrow> True
      | (ObjectK, AddProperty k a) \<Rightarrow> True
      | (ObjectK, EndOp) \<Rightarrow> True
      | (ArrayK, AddItem a) \<Rightarrow> True
      | (ArrayK, EndOp) \<Rightarrow> True
      | _ \<Rightarrow> False)"

definition op_value :: "op \<Rightarrow> jsvalue option" where
  "op_value f =
     (case f of
        Primitive p \<Rightarrow> Some (Prim p)
      | ObjectOp (Some kvs) \<Rightarrow> Some (Obj kvs)
      | ArrayOp (Some vs) \<Rightarrow> Some (Arr vs)
      | AddProperty k (Given v) \<Rightarrow> Some v
      | AddItem (Given v) \<Rightarrow> Some v
      | _ \<Rightarrow> None)"

definition encodable :: "op \<Rightarrow> bool" where
  "encodable f = (case op_value f of None \<Rightarrow> True | Some v \<Rightarrow> \<not> isl (stringify v))"

text \<open>
  The invariant of one builder \<open>n\<close> in an arena of \<open>L\<close> builders, where \<open>W c\<close> is the
  length of the text in the stream of \<open>c\<close>: the builders it holds are younger than itself,
  a pipe has copied no more than its source holds, the piped source is the current child
  and no other, a builder with no current child has an empty queue, a value builder has
  no children and no end scheduled, and any other builder has ended its stream exactly when
  its end is scheduled, its queue is empty and it has no current child.
\<close>

definition node_ok :: "nat \<Rightarrow> (nat \<Rightarrow> nat) \<Rightarrow> nat \<Rightarrow> builder \<Rightarrow> bool" where
  "node_ok L W n b \<longleftrightarrow>
     (\<forall>c \<in> set (queue b). n < c \<and> c < L) \<and>
     (\<forall>(c, k) \<in> set (piped b). n < c \<and> c < L \<and> k \<le> W c) \<and>
     map fst (piped b) = (case current b of None \<Rightarrow> [] | Some c \<Rightarrow> [c]) \<and>
     (current b = None \<longrightarrow> queue b = []) \<and>
     (if kind b = ValueK then queue b = [] \<and> current b = None \<and> \<not> endScheduled b
      else ended b = (endScheduled b \<and> queue b = [] \<and> current b = None))"

definition heap_ok :: "heap \<Rightarrow> bool" where
  "heap_ok s \<longleftrightarrow> (\<forall>n < length s. node_ok (length s) (\<lambda>c. length (written (s ! c))) n (s ! n))"

text \<open>The arenas a program can reach: any calls on any handles, any work of the streams.\<close>

inductive reach :: "heap \<Rightarrow> bool" where
  reach_init: "reach createBuilder"
| reach_fire: "reach s \<Longrightarrow> reach (fire e s)"

section \<open>Programs, callers and schedules\<close>

subsection \<open>The programs of the examples\<close>

definition example3 :: heap where
  "example3 =
     snd (chain [ArrayOp None, AddItem (Given (Prim (PNum (Finite 1)))),
                 AddItem (Given (Prim (PNum (Finite 2)))), EndOp]
            (Returned (Some 0), createBuilder))"

definition primitive42 :: heap where
  "primitive42 = fire (Call 0 (Primitive (PNum (Finite 42)))) createBuilder"

definition primitive42_done :: heap where
  "primitive42_done = run [Call 0 (Primitive (PNum (Finite 42))), Flow 0 1, ChildEnd 0 1] createBuilder"

definition primitive42_flowing :: heap where
  "primitive42_flowing = run [Call 0 (Primitive (PNum (Finite 42))), Flow 0 1] createBuilder"

subsection \<open>Values that can be encoded, and the bulk forms\<close>

definition is_finite :: "jsnum \<Rightarrow> bool" where
  "is_finite x = (case x of Finite i \<Rightarrow> True | _ \<Rightarrow> False)"

fun circular_free :: "jsvalue \<Rightarrow> bool" where
  "circular_free (Prim p) = True"
| "circular_free (Arr vs) = list_all circular_free vs"
| "circular_free (Obj kvs) = list_all circular_free (map snd kvs)"
| "circular_free Circular = False"

text \<open>
  Modelled from the spec: \<open>addProperties\<close> and \<open>addItems\<close> are called by the tests of the
  repository, and no source file at hand defines them. The spec: "Bulk forms
  (\<open>addProperties(map)\<close> / \<open>addItems(seq)\<close>): apply the inline form once per entry in order;
  empty input is a no-op", with the result types \<open>addProperties(map) -> ObjectContext\<close>
  and \<open>addItems(seq) -> ArrayContext\<close>. An exception of an entry ends the loop.
\<close>

fun addProperties :: "nat \<Rightarrow> (string \<times> jsvalue) list \<Rightarrow> heap \<Rightarrow> nat option outcome \<times> heap" where
  "addProperties n [] s = (Returned (Some n), s)"
| "addProperties n ((k, v) # kvs) s =
     (case addProperty n k (Given v) s of
        (Threw e, s1) \<Rightarrow> (Threw e, s1)
      | (Returned r, s1) \<Rightarrow> addProperties n kvs s1)"

fun addItems :: "nat \<Rightarrow> jsvalue list \<Rightarrow> heap \<Rightarrow> nat option outcome \<times> heap" where
  "addItems n [] s = (Returned (Some n), s)"
| "addItems n (v # vs) s =
     (case addItem n (Given v) s of
        (Threw e, s1) \<Rightarrow> (Threw e, s1)
      | (Returned r, s1) \<Rightarrow> addItems n vs s1)"

definition bulk_object :: heap where
  "bulk_object =
     snd (chain [ObjectOp None, AddProperty ''foo'' (Given (Prim PNull)),
                 AddProperty ''bar'' (Given (Prim (PNum (Finite 42))))]
            (Returned (Some 0), createBuilder))"

subsection \<open>Callers and schedules\<close>

text \<open>
  The callers of a document: a script is what one holder of a context does with it, call
  after call; with every call comes the script of the holder of the context that the call
  opens (it is dropped when the call opens none). Every context so receives its own
  sequence of calls, in its own order, whatever the other holders do in the meantime.
\<close>

datatype script = Script "(op \<times> script) list"

text \<open>
  The text that the calls of a script are going to add to the stream of a context of class
  \<open>k\<close>, with \<open>e\<close> its \<open>endScheduled\<close> and \<open>fi\<close> its \<open>firstInserted\<close>.
\<close>

definition sep :: "bool \<Rightarrow> string" where
  "sep fi = (if fi then '','' else [])"

fun resid :: "kind \<Rightarrow> bool \<Rightarrow> bool \<Rightarrow> script \<Rightarrow> string" where
  "resid k e fi (Script []) = []"
| "resid k e fi (Script ((f, S) # cs)) =
     (if e then []
      else if \<not> has_method k f then resid k e fi (Script cs)
      else
        (case f of
           Primitive p \<Rightarrow> stringify_prim p
         | ObjectOp d \<Rightarrow>
             (case d of
                None \<Rightarrow> ''{'' @ resid ObjectK False False S
              | Some kvs \<Rightarrow>
                  (case stringify (Obj kvs) of
                     Inl err \<Rightarrow> resid k e fi (Script cs)
                   | Inr t \<Rightarrow> t))
         | ArrayOp d \<Rightarrow>
             (case d of
                None \<Rightarrow> ''['' @ resid ArrayK False False S
              | Some vs \<Rightarrow>
                  (case stringify (Arr vs) of
                     Inl err \<Rightarrow> resid k e fi (Script cs)
                   | Inr t \<Rightarrow> t))
         | AddProperty key a \<Rightarrow>
             sep fi @
             (case a of
                Given v \<Rightarrow>
                  (case stringify v of Inl err \<Rightarrow> [] | Inr t \<Rightarrow> dq # key @ dq # '':'' @ t)
              | _ \<Rightarrow> dq # key @ dq # '':'' @ resid JsonK False False S) @
             resid k e True (Script cs)
         | AddItem a \<Rightarrow>
             sep fi @
             (case a of
                Given v \<Rightarrow> (case stringify v of Inl err \<Rightarrow> [] | Inr t \<Rightarrow> t)
              | _ \<Rightarrow> resid JsonK False False S) @
             resid k e True (Script cs)
         | EndOp \<Rightarrow> (case k of ObjectK \<Rightarrow> ''}'' | ArrayK \<Rightarrow> '']'' | _ \<Rightarrow> [])))"

definition render :: "script \<Rightarrow> string" where
  "render S = resid JsonK False False S"

definition opens :: "op \<Rightarrow> bool" where
  "opens f =
     (case f of
        ObjectOp d \<Rightarrow> d = None
      | ArrayOp d \<Rightarrow> d = None
      | AddProperty k a \<Rightarrow> \<not> not_undefined a
      | AddItem a \<Rightarrow> \<not> not_undefined a
      | _ \<Rightarrow> False)"

text \<open>
  An execution is a list of moves: the holder of a context makes its next call (an exception
  is caught, the holder goes on), a pipe copies what its source has written, the end event
  of a source is delivered. The moves of different contexts come in any order.
\<close>

type_synonym tasks = "nat \<Rightarrow> script"

datatype move = Next nat | Copy nat nat | Ended nat nat

fun next_call :: "nat \<Rightarrow> script \<Rightarrow> heap \<Rightarrow> tasks \<Rightarrow> heap \<times> tasks" where
  "next_call n (Script []) s ts = (s, ts)"
| "next_call n (Script ((f, S) # cs)) s ts =
     (case call n f s of
        (Returned (Some h), s') \<Rightarrow>
          (s', if opens f then ts(n := Script cs, h := S) else ts(n := Script cs))
      | (r, s') \<Rightarrow> (s', ts(n := Script cs)))"

fun smove :: "move \<Rightarrow> heap \<times> tasks \<Rightarrow> heap \<times> tasks" where
  "smove (Next n) (s, ts) = (if n < length s then next_call n (ts n) s ts else (s, ts))"
| "smove (Copy d c) (s, ts) = (fire (Flow d c) s, ts)"
| "smove (Ended d c) (s, ts) = (fire (ChildEnd d c) s, ts)"

fun sched :: "move list \<Rightarrow> heap \<times> tasks \<Rightarrow> heap \<times> tasks" where
  "sched [] c = c"
| "sched (m # ms) c = sched ms (smove m c)"

definition start :: "script \<Rightarrow> heap \<times> tasks" where
  "start S = (createBuilder, (\<lambda>n. Script [])(0 := S))"

text \<open>
  The text of a builder to come: what its stream holds, what its piped source and the
  builders of its queue still have to give, and what the calls still to be made will add.
\<close>

definition resid_of :: "heap \<Rightarrow> tasks \<Rightarrow> nat \<Rightarrow> string" where
  "resid_of s ts n = resid (kind (s ! n)) (endScheduled (s ! n)) (firstInserted (s ! n)) (ts n)"

inductive den :: "heap \<Rightarrow> (nat \<Rightarrow> string) \<Rightarrow> nat \<Rightarrow> string \<Rightarrow> bool" for s R where
  denI: "n < length s \<Longrightarrow>
         list_all2 (den s R) (map fst (piped (s ! n))) ps \<Longrightarrow>
         list_all2 (den s R) (queue (s ! n)) qs \<Longrightarrow>
         den s R n (written (s ! n) @ concat (map2 drop (map snd (piped (s ! n))) ps)
                      @ concat qs @ R n)"

definition loc :: "(nat \<Rightarrow> string \<Rightarrow> bool) \<Rightarrow> builder \<Rightarrow> string \<Rightarrow> bool" where
  "loc D b t \<longleftrightarrow>
     (\<exists>ps qs. list_all2 D (map fst (piped b)) ps \<and> list_all2 D (queue b) qs \<and>
              t = written b @ concat (map2 drop (map snd (piped b)) ps) @ concat qs)"

definition sinv :: "script \<Rightarrow> heap \<times> tasks \<Rightarrow> bool" where
  "sinv S c \<longleftrightarrow> reach (fst c) \<and> den (fst c) (resid_of (fst c) (snd c)) 0 (render S)"

definition two_items :: script where
  "two_items =
     Script [(ArrayOp None,
              Script [(AddItem Omitted, Script [(Primitive (PNum (Finite 1)), Script [])]),
                      (AddItem (Given (Prim (PNum (Finite 2)))), Script []),
                      (EndOp, Script [])])]"

definition in_program_order :: "move list" where
  "in_program_order =
     [Next 0, Next 1, Next 3, Next 1, Next 1,
      Copy 1 2, Ended 1 2, Copy 3 4, Ended 3 4, Copy 1 3, Ended 1 3, Copy 1 5, Ended 1 5,
      Copy 1 6, Ended 1 6, Copy 1 7, Ended 1 7, Copy 0 1, Ended 0 1]"

definition item_populated_last :: "move list" where
  "item_populated_last =
     [Next 0, Next 1, Next 1, Copy 1 2, Ended 1 2, Copy 0 1, Next 1, Next 3,
      Copy 3 7, Ended 3 7, Copy 1 3, Ended 1 3, Copy 1 4, Ended 1 4,
      Copy 1 5, Ended 1 5, Copy 1 6, Ended 1 6, Copy 0 1, Ended 0 1]"

section \<open>Basic facts\<close>

lemma length_upd [simp]: "length (upd n f s) = length s"
  by (simp add: upd_def)

lemma nth_upd [simp]: "n < length s \<Longrightarrow> upd n f s ! m = (if m = n then f (s ! n) else s ! m)"
  by (simp add: upd_def)

lemma upd_upd: "upd n f (upd n g s) = upd n (\<lambda>b. f (g b)) s"
  by (cases "n < length s") (simp_all add: upd_def list_update_beyond)

lemma upd_append: "n < length s \<Longrightarrow> upd n f (s @ t) = upd n f s @ t"
  by (simp add: upd_def list_update_append nth_append)

lemma upd_same: "f (s ! n) = s ! n \<Longrightarrow> upd n f s = s"
  by (simp add: upd_def)

lemma consume_upd: "consumeChildBuilder n s = upd n consume_b s"
  by (simp add: consumeChildBuilder_def consume_b_def upd_def split: option.splits list.splits)

lemma addChild_upd: "addChildBuilder n c s = upd n (add_b c) s"
  unfolding addChildBuilder_def consume_upd upd_upd by (simp add: upd_def add_b_def)

lemma scheduleEnd_upd: "scheduleEnd n s = upd n end_b s"
  unfolding scheduleEnd_def consume_upd upd_upd by (simp add: upd_def end_b_def)

lemma kind_consume_b [simp]: "kind (consume_b b) = kind b"
  by (simp add: consume_b_def split: option.splits list.splits)

lemma kind_add_b [simp]: "kind (add_b c b) = kind b"
  by (simp add: add_b_def)

lemma kind_end_b [simp]: "kind (end_b b) = kind b"
  by (simp add: end_b_def)

lemma written_consume_b [simp]: "written (consume_b b) = written b"
  by (simp add: consume_b_def split: option.splits list.splits)

lemma written_add_b [simp]: "written (add_b c b) = written b"
  by (simp add: add_b_def)

lemma written_end_b [simp]: "written (end_b b) = written b"
  by (simp add: end_b_def)

lemma node_ok_add_b:
  "node_ok L W n b \<Longrightarrow> kind b \<noteq> ValueK \<Longrightarrow> n < c \<Longrightarrow> c < L \<Longrightarrow> node_ok L W n (add_b c b)"
  by (auto simp: node_ok_def add_b_def consume_b_def split: option.splits list.splits if_splits)

lemma node_ok_end_b:
  "node_ok L W n b \<Longrightarrow> kind b \<noteq> ValueK \<Longrightarrow> node_ok L W n (end_b b)"
  by (auto simp: node_ok_def end_b_def consume_b_def split: option.splits list.splits if_splits)

lemma node_ok_first:
  "node_ok L W n b \<Longrightarrow> node_ok L W n (b\<lparr>firstInserted := True\<rparr>)"
  by (simp add: node_ok_def)

lemma node_ok_mono:
  "node_ok L W n b \<Longrightarrow> L \<le> L' \<Longrightarrow> (\<And>c. n < c \<Longrightarrow> c < L \<Longrightarrow> W c \<le> W' c) \<Longrightarrow> node_ok L' W' n b"
  unfolding node_ok_def by (fastforce split: if_splits)

lemma heap_ok_upd:
  assumes "heap_ok s" and "n < length s"
    and "node_ok (length s) (\<lambda>c. length (written (s ! c))) n (f (s ! n))"
    and "length (written (s ! n)) \<le> length (written (f (s ! n)))"
  shows "heap_ok (upd n f s)"
  unfolding heap_ok_def
proof (intro allI impI)
  fix m assume m: "m < length (upd n f s)"
  have mono: "\<And>c. length (written (s ! c)) \<le> length (written (upd n f s ! c))"
    using assms(2,4) by simp
  show "node_ok (length (upd n f s)) (\<lambda>c. length (written (upd n f s ! c))) m (upd n f s ! m)"
  proof (cases "m = n")
    case True
    then show ?thesis
      using assms(2) node_ok_mono[OF assms(3), of "length s" "\<lambda>c. length (written (upd n f s ! c))"] mono
      by simp
  next
    case False
    have "node_ok (length s) (\<lambda>c. length (written (s ! c))) m (s ! m)"
      using assms(1) m by (simp add: heap_ok_def)
    from node_ok_mono[OF this, of "length s" "\<lambda>c. length (written (upd n f s ! c))"] mono False assms(2)
    show ?thesis by simp
  qed
qed

lemma heap_ok_snoc:
  assumes "heap_ok s" and "queue b = []" and "piped b = []" and "current b = None"
    and "\<not> endScheduled b" and "kind b \<noteq> ValueK \<Longrightarrow> \<not> ended b"
  shows "heap_ok (s @ [b])"
  unfolding heap_ok_def
proof (intro allI impI)
  fix m assume m: "m < length (s @ [b])"
  show "node_ok (length (s @ [b])) (\<lambda>c. length (written ((s @ [b]) ! c))) m ((s @ [b]) ! m)"
  proof (cases "m < length s")
    case True
    have "node_ok (length s) (\<lambda>c. length (written (s ! c))) m (s ! m)"
      using assms(1) True by (simp add: heap_ok_def)
    from node_ok_mono[OF this, of "Suc (length s)" "\<lambda>c. length (written ((s @ [b]) ! c))"] True
    show ?thesis by (simp add: nth_append)
  next
    case False
    then have "m = length s" using m by simp
    then show ?thesis using assms(2-6) by (auto simp: node_ok_def)
  qed
qed

lemma heap_ok_addChild:
  "heap_ok s \<Longrightarrow> kind (s ! n) \<noteq> ValueK \<Longrightarrow> n < c \<Longrightarrow> c < length s \<Longrightarrow> heap_ok (addChildBuilder n c s)"
  unfolding addChild_upd
  by (rule heap_ok_upd) (auto simp: heap_ok_def intro: node_ok_add_b)

lemma heap_ok_scheduleEnd:
  "heap_ok s \<Longrightarrow> n < length s \<Longrightarrow> kind (s ! n) \<noteq> ValueK \<Longrightarrow> heap_ok (scheduleEnd n s)"
  unfolding scheduleEnd_upd
  by (rule heap_ok_upd) (auto simp: heap_ok_def intro: node_ok_end_b)

lemma new_builder_eq: "new_builder k p s = (length s, s @ [fresh_rec k p])"
  by (simp add: new_builder_def fresh_rec_def)

lemma rawValue_fresh:
  "rawValue (length s) d (s @ [fresh_rec ValueK p]) = s @ [raw_rec p d]"
  by (simp add: rawValue_def upd_def fresh_rec_def raw_rec_def)

lemma new_raw_eq: "new_raw p d s = (length s, s @ [raw_rec p d])"
  by (simp add: new_raw_def new_builder_eq rawValue_fresh)

lemma valueV_fresh:
  "valueV (length s) v (s @ [fresh_rec ValueK p]) =
     (case stringify v of
        Inl e \<Rightarrow> (Threw e, s @ [fresh_rec ValueK p])
      | Inr t \<Rightarrow> (Returned (length s), s @ [raw_rec p t]))"
  by (simp add: valueV_def rawValue_fresh split: sum.splits)

lemma insertComma_eq:
  "insertCommaIfNeeded n s =
     (if \<not> firstInserted (s ! n) then upd n (\<lambda>b. b\<lparr>firstInserted := True\<rparr>) s
      else upd n (add_b (length s)) (s @ [raw_rec (Some n) '','']))"
  by (simp add: insertCommaIfNeeded_def new_raw_eq addChild_upd)

lemma heap_ok_add:
  "heap_ok s \<Longrightarrow> n < c \<Longrightarrow> c < length s \<Longrightarrow> kind (s ! n) \<noteq> ValueK \<Longrightarrow> heap_ok (upd n (add_b c) s)"
  using heap_ok_addChild[of s n c] by (simp add: addChild_upd)

lemma heap_ok_end:
  "heap_ok s \<Longrightarrow> n < length s \<Longrightarrow> kind (s ! n) \<noteq> ValueK \<Longrightarrow> heap_ok (upd n end_b s)"
  using heap_ok_scheduleEnd[of s n] by (simp add: scheduleEnd_upd)

lemma heap_ok_first:
  "heap_ok s \<Longrightarrow> n < length s \<Longrightarrow> heap_ok (upd n (\<lambda>b. b\<lparr>firstInserted := True\<rparr>) s)"
  by (rule heap_ok_upd) (auto simp: heap_ok_def intro: node_ok_first)

lemma heap_ok_raw: "heap_ok s \<Longrightarrow> heap_ok (s @ [raw_rec p d])"
  by (rule heap_ok_snoc) (simp_all add: raw_rec_def)

lemma heap_ok_fresh: "heap_ok s \<Longrightarrow> heap_ok (s @ [fresh_rec k p])"
  by (rule heap_ok_snoc) (simp_all add: fresh_rec_def)

lemma kind_first [simp]: "kind (b\<lparr>firstInserted := True\<rparr>) = kind b"
  by simp

lemma heap_ok_insertComma:
  "heap_ok s \<Longrightarrow> n < length s \<Longrightarrow> kind (s ! n) \<noteq> ValueK \<Longrightarrow> heap_ok (insertCommaIfNeeded n s)"
  by (simp add: insertComma_eq heap_ok_first heap_ok_add heap_ok_raw nth_append)

lemma length_insertComma:
  "length (insertCommaIfNeeded n s) = (if firstInserted (s ! n) then Suc (length s) else length s)"
  by (simp add: insertComma_eq)

lemma kind_insertComma:
  "n < length s \<Longrightarrow> kind (insertCommaIfNeeded n s ! n) = kind (s ! n)"
  by (simp add: insertComma_eq nth_append)

lemma heap_ok_valueJ:
  "heap_ok s \<Longrightarrow> n < length s \<Longrightarrow> kind (s ! n) \<noteq> ValueK \<Longrightarrow> heap_ok (snd (valueJ n v s))"
  by (simp add: valueJ_def new_builder_eq valueV_fresh addChild_upd scheduleEnd_upd
      heap_ok_end heap_ok_add heap_ok_raw heap_ok_fresh nth_append split: sum.splits)

lemma heap_ok_endJ:
  "heap_ok s \<Longrightarrow> n < length s \<Longrightarrow> kind (s ! n) \<noteq> ValueK \<Longrightarrow> heap_ok (snd (endJ n s))"
  by (simp add: endJ_def scheduleEnd_upd heap_ok_end)

lemma new_object_eq:
  "new_object p s =
     (length s, upd (length s) (add_b (Suc (length s)))
                  ((s @ [fresh_rec ObjectK p]) @ [raw_rec (Some (length s)) ''{'']))"
  by (simp add: new_object_def new_builder_eq new_raw_eq addChild_upd)

lemma new_array_eq:
  "new_array p s =
     (length s, upd (length s) (add_b (Suc (length s)))
                  ((s @ [fresh_rec ArrayK p]) @ [raw_rec (Some (length s)) ''['']))"
  by (simp add: new_array_def new_builder_eq new_raw_eq addChild_upd)

lemma heap_ok_new_object: "heap_ok s \<Longrightarrow> heap_ok (snd (new_object p s))"
  unfolding new_object_eq snd_conv
  by (intro heap_ok_add heap_ok_raw heap_ok_fresh) (simp_all add: nth_append fresh_rec_def)

lemma heap_ok_new_array: "heap_ok s \<Longrightarrow> heap_ok (snd (new_array p s))"
  unfolding new_array_eq snd_conv
  by (intro heap_ok_add heap_ok_raw heap_ok_fresh) (simp_all add: nth_append fresh_rec_def)

lemma lt_insertComma: "n < length s \<Longrightarrow> n < length (insertCommaIfNeeded n s)"
  by (simp add: length_insertComma)

lemma heap_ok_add_raw:
  "heap_ok s \<Longrightarrow> n < length s \<Longrightarrow> kind (s ! n) \<noteq> ValueK \<Longrightarrow>
   heap_ok (upd n (add_b (length s)) (s @ [raw_rec p d]))"
  by (intro heap_ok_add heap_ok_raw) (simp_all add: nth_append)

lemma heap_ok_objectJ:
  "heap_ok s \<Longrightarrow> n < length s \<Longrightarrow> kind (s ! n) \<noteq> ValueK \<Longrightarrow> heap_ok (snd (objectJ n d s))"
  using heap_ok_new_object[of s "parent (s ! n)"]
  by (cases d)
     (simp_all add: objectJ_def heap_ok_valueJ new_object_eq addChild_upd scheduleEnd_upd
        heap_ok_end heap_ok_add nth_append)

lemma heap_ok_arrayJ:
  "heap_ok s \<Longrightarrow> n < length s \<Longrightarrow> kind (s ! n) \<noteq> ValueK \<Longrightarrow> heap_ok (snd (arrayJ n d s))"
  using heap_ok_new_array[of s "parent (s ! n)"]
  by (cases d)
     (simp_all add: arrayJ_def heap_ok_valueJ new_array_eq addChild_upd scheduleEnd_upd
        heap_ok_end heap_ok_add nth_append)

lemma heap_ok_primitive:
  "heap_ok s \<Longrightarrow> n < length s \<Longrightarrow> kind (s ! n) \<noteq> ValueK \<Longrightarrow> heap_ok (snd (primitive n p s))"
  by (simp add: primitive_def valueJ_def new_builder_eq valueV_fresh addChild_upd scheduleEnd_upd
      endJ_def heap_ok_end heap_ok_add heap_ok_raw heap_ok_fresh nth_append stringify_prim_def)

lemma heap_ok_pushProperty:
  "heap_ok s \<Longrightarrow> n < length s \<Longrightarrow> kind (s ! n) \<noteq> ValueK \<Longrightarrow> heap_ok (snd (pushProperty n k v s))"
  using heap_ok_insertComma[of s n] kind_insertComma[of n s] lt_insertComma[of n s]
  by (simp add: pushProperty_def new_builder_eq rawValue_fresh addChild_upd
      heap_ok_add_raw heap_ok_fresh split: sum.splits)

lemma heap_ok_pushItem:
  "heap_ok s \<Longrightarrow> n < length s \<Longrightarrow> kind (s ! n) \<noteq> ValueK \<Longrightarrow> heap_ok (snd (pushItem n v s))"
  using heap_ok_insertComma[of s n] kind_insertComma[of n s] lt_insertComma[of n s]
  by (simp add: pushItem_def new_builder_eq valueV_fresh addChild_upd
      heap_ok_add_raw heap_ok_fresh split: sum.splits)

lemma length_insertComma_ge: "length s \<le> length (insertCommaIfNeeded n s)"
  by (simp add: length_insertComma)

lemma heap_ok_open_tail:
  assumes "heap_ok s1" and "n < length s" and "kind (s1 ! n) \<noteq> ValueK" and "length s < length s1"
  shows "heap_ok (upd n (add_b (length s)) (upd n (add_b (length s1)) (s1 @ [raw_rec p d])))"
  using assms by (intro heap_ok_add heap_ok_raw) (simp_all add: nth_append)

lemma heap_ok_addProperty:
  "heap_ok s \<Longrightarrow> n < length s \<Longrightarrow> kind (s ! n) \<noteq> ValueK \<Longrightarrow> heap_ok (snd (addProperty n k a s))"
  using heap_ok_insertComma[of "s @ [fresh_rec JsonK (Some n)]" n]
    kind_insertComma[of n "s @ [fresh_rec JsonK (Some n)]"]
    length_insertComma_ge[of "s @ [fresh_rec JsonK (Some n)]" n]
  by (simp add: addProperty_def heap_ok_pushProperty new_builder_eq new_raw_eq addChild_upd
      heap_ok_open_tail heap_ok_fresh nth_append)

lemma heap_ok_addItem:
  "heap_ok s \<Longrightarrow> n < length s \<Longrightarrow> kind (s ! n) \<noteq> ValueK \<Longrightarrow> heap_ok (snd (addItem n a s))"
  using heap_ok_insertComma[of "s @ [fresh_rec JsonK (Some n)]" n]
    kind_insertComma[of n "s @ [fresh_rec JsonK (Some n)]"]
    length_insertComma_ge[of "s @ [fresh_rec JsonK (Some n)]" n]
  by (simp add: addItem_def heap_ok_pushItem new_builder_eq addChild_upd
      heap_ok_add heap_ok_fresh nth_append)

lemma heap_ok_endO:
  "heap_ok s \<Longrightarrow> n < length s \<Longrightarrow> kind (s ! n) \<noteq> ValueK \<Longrightarrow> heap_ok (snd (endO n s))"
  by (simp add: endO_def new_raw_eq addChild_upd scheduleEnd_upd
      heap_ok_end heap_ok_add heap_ok_raw nth_append)

lemma heap_ok_endA:
  "heap_ok s \<Longrightarrow> n < length s \<Longrightarrow> kind (s ! n) \<noteq> ValueK \<Longrightarrow> heap_ok (snd (endA n s))"
  by (simp add: endA_def new_raw_eq addChild_upd scheduleEnd_upd
      heap_ok_end heap_ok_add heap_ok_raw nth_append)

lemma heap_ok_call: "heap_ok s \<Longrightarrow> n < length s \<Longrightarrow> heap_ok (snd (call n f s))"
  by (simp add: call_def heap_ok_primitive heap_ok_objectJ heap_ok_arrayJ heap_ok_endJ
      heap_ok_addProperty heap_ok_addItem heap_ok_endO heap_ok_endA
      split: kind.splits op.splits)

lemma piped_single:
  assumes "node_ok L W n b" and "map_of (piped b) c = Some k"
  shows "piped b = [(c, k)] \<and> current b = Some c \<and> kind b \<noteq> ValueK"
proof -
  from assms(2) have ne: "piped b \<noteq> []" by auto
  from assms(1) have m: "map fst (piped b) = (case current b of None \<Rightarrow> [] | Some c \<Rightarrow> [c])"
    by (simp add: node_ok_def)
  from ne m obtain x where cur: "current b = Some x" by (cases "current b") auto
  with m have "map fst (piped b) = [x]" by simp
  then obtain k' where p: "piped b = [(x, k')]" by (cases "piped b") auto
  with assms(2) have "x = c" "k' = k" by (auto split: if_splits)
  moreover have "kind b \<noteq> ValueK" using assms(1) cur by (auto simp: node_ok_def)
  ultimately show ?thesis using p cur by simp
qed

lemma node_ok_flow:
  assumes "node_ok L W n b" and "map_of (piped b) c = Some k"
  shows "node_ok L W n (b\<lparr>written := w, piped := map (\<lambda>(c', k'). (c', if c' = c then W c else k')) (piped b)\<rparr>)"
  using assms(1) piped_single[OF assms] by (auto simp: node_ok_def)

lemma node_ok_childEnd:
  assumes "node_ok L W n b" and "map_of (piped b) c = Some k"
  shows "node_ok L W n (consume_b (b\<lparr>current := None, piped := filter (\<lambda>(c', k'). c' \<noteq> c) (piped b)\<rparr>))"
  using assms(1) piped_single[OF assms]
  by (auto simp: node_ok_def consume_b_def split: list.splits)

lemma heap_ok_flow:
  assumes "heap_ok s" and "d < length s"
  shows "heap_ok (flow d c s)"
proof (cases "map_of (piped (s ! d)) c")
  case None
  then show ?thesis using assms by (simp add: flow_def)
next
  case (Some k)
  have ok: "node_ok (length s) (\<lambda>c. length (written (s ! c))) d (s ! d)"
    using assms by (simp add: heap_ok_def)
  show ?thesis
    unfolding flow_def Some option.case
    by (rule heap_ok_upd[OF assms]) (simp_all add: node_ok_flow[OF ok Some])
qed

lemma heap_ok_childEnd:
  assumes "heap_ok s" and "d < length s"
  shows "heap_ok (childEnd d c s)"
proof (cases "map_of (piped (s ! d)) c")
  case None
  then show ?thesis using assms by (simp add: childEnd_def)
next
  case (Some k)
  have ok: "node_ok (length s) (\<lambda>c. length (written (s ! c))) d (s ! d)"
    using assms by (simp add: heap_ok_def)
  have "heap_ok (upd d (\<lambda>b. consume_b (b\<lparr>current := None,
                               piped := filter (\<lambda>(c', k'). c' \<noteq> c) (piped b)\<rparr>)) s)"
    by (rule heap_ok_upd[OF assms]) (simp_all add: node_ok_childEnd[OF ok Some])
  then show ?thesis
    using assms by (simp add: childEnd_def Some consume_upd upd_upd)
qed

lemma heap_ok_createBuilder: "heap_ok createBuilder"
  by (simp add: createBuilder_def new_builder_def heap_ok_def node_ok_def)

lemma heap_ok_fire: "heap_ok s \<Longrightarrow> heap_ok (fire e s)"
  by (cases e) (simp_all add: fire_def heap_ok_call heap_ok_flow heap_ok_childEnd)

lemma reach_heap_ok: "reach s \<Longrightarrow> heap_ok s"
  by (induction rule: reach.induct) (simp_all add: heap_ok_createBuilder heap_ok_fire)

lemma parent_consume_b [simp]: "parent (consume_b b) = parent b"
  by (simp add: consume_b_def split: option.splits list.splits)

lemma parent_add_b [simp]: "parent (add_b c b) = parent b"
  by (simp add: add_b_def)

lemma parent_end_b [simp]: "parent (end_b b) = parent b"
  by (simp add: end_b_def)

lemma parent_comma_b [simp]: "parent (comma_b c b) = parent b"
  by (simp add: comma_b_def)

lemma kind_comma_b [simp]: "kind (comma_b c b) = kind b"
  by (simp add: comma_b_def)

lemma written_comma_b [simp]: "written (comma_b c b) = written b"
  by (simp add: comma_b_def)

lemma insertComma_nf:
  "n < length s \<Longrightarrow> insertCommaIfNeeded n s = upd n (comma_b (length s)) s @ comma_new n s"
  by (simp add: insertComma_eq comma_new_def upd_append) (simp add: upd_def comma_b_def)

lemma length_comma_new: "length (comma_new n s) = (if firstInserted (s ! n) then 1 else 0)"
  by (simp add: comma_new_def)

lemma comma_new_snoc: "n < length s \<Longrightarrow> comma_new n (s @ t) = comma_new n s"
  by (simp add: comma_new_def nth_append)

lemma valueJ_nf:
  "n < length s \<Longrightarrow>
   valueJ n v s =
     (case stringify v of
        Inl e \<Rightarrow> (Threw e, upd n (\<lambda>b. b) s @ [fresh_rec ValueK (parent (s ! n))])
      | Inr t \<Rightarrow> (Returned (Some n),
                  upd n (\<lambda>b. end_b (add_b (length s) b)) s @ [raw_rec (parent (s ! n)) t]))"
  by (simp add: valueJ_def new_builder_eq valueV_fresh addChild_upd scheduleEnd_upd upd_upd
      upd_append upd_same split: sum.splits)

lemma endJ_nf:
  "n < length s \<Longrightarrow> endJ n s = (Returned (parent (s ! n)), upd n (\<lambda>b. end_b b) s @ [])"
  by (simp add: endJ_def scheduleEnd_upd)

lemma primitive_nf:
  "n < length s \<Longrightarrow>
   primitive n p s =
     (Returned (parent (s ! n)),
      upd n (\<lambda>b. end_b (end_b (add_b (length s) b))) s
        @ [raw_rec (parent (s ! n)) (stringify_prim p)])"
  by (simp add: primitive_def valueJ_nf endJ_def scheduleEnd_upd upd_upd
      upd_append[symmetric] nth_append)

lemma objectJ_nf:
  "n < length s \<Longrightarrow>
   objectJ n None s =
     (Returned (Some (length s)),
      upd n (\<lambda>b. end_b (add_b (length s) b)) s
        @ [add_b (Suc (length s)) (fresh_rec ObjectK (parent (s ! n))),
           raw_rec (Some (length s)) ''{''])"
  by (simp add: objectJ_def new_object_eq addChild_upd scheduleEnd_upd upd_upd)
     (simp add: upd_def list_update_append nth_append)

lemma arrayJ_nf:
  "n < length s \<Longrightarrow>
   arrayJ n None s =
     (Returned (Some (length s)),
      upd n (\<lambda>b. end_b (add_b (length s) b)) s
        @ [add_b (Suc (length s)) (fresh_rec ArrayK (parent (s ! n))),
           raw_rec (Some (length s)) ''[''])"
  by (simp add: arrayJ_def new_array_eq addChild_upd scheduleEnd_upd upd_upd)
     (simp add: upd_def list_update_append nth_append)

lemma endO_nf:
  "n < length s \<Longrightarrow>
   endO n s = (Returned (parent (s ! n)),
               upd n (\<lambda>b. end_b (add_b (length s) b)) s @ [raw_rec (Some n) ''}''])"
  by (simp add: endO_def new_raw_eq addChild_upd scheduleEnd_upd upd_upd
      upd_append[symmetric] nth_append)

lemma endA_nf:
  "n < length s \<Longrightarrow>
   endA n s = (Returned (parent (s ! n)),
               upd n (\<lambda>b. end_b (add_b (length s) b)) s @ [raw_rec (Some n) '']''])"
  by (simp add: endA_def new_raw_eq addChild_upd scheduleEnd_upd upd_upd
      upd_append[symmetric] nth_append)

lemma pushProperty_nf:
  "n < length s \<Longrightarrow>
   pushProperty n k v s =
     (case stringify v of
        Inl e \<Rightarrow> (Threw e, upd n (\<lambda>b. comma_b (length s) b) s
                            @ (comma_new n s @ [fresh_rec ValueK (Some n)]))
      | Inr t \<Rightarrow> (Returned (Some n),
                  upd n (\<lambda>b. add_b (length s + length (comma_new n s)) (comma_b (length s) b)) s
                    @ (comma_new n s @ [raw_rec (Some n) (dq # k @ dq # '':'' @ t)])))"
  by (simp add: pushProperty_def new_builder_eq insertComma_nf addChild_upd
      rawValue_fresh[of "upd n (comma_b (length s)) s @ comma_new n s", simplified]
      upd_append upd_upd split: sum.splits)

lemma pushItem_nf:
  "n < length s \<Longrightarrow>
   pushItem n v s =
     (case stringify v of
        Inl e \<Rightarrow> (Threw e, upd n (\<lambda>b. comma_b (length s) b) s
                            @ (comma_new n s @ [fresh_rec ValueK (Some n)]))
      | Inr t \<Rightarrow> (Returned (Some n),
                  upd n (\<lambda>b. add_b (length s + length (comma_new n s)) (comma_b (length s) b)) s
                    @ (comma_new n s @ [raw_rec (Some n) t])))"
  by (simp add: pushItem_def new_builder_eq insertComma_nf addChild_upd
      valueV_fresh[of "upd n (comma_b (length s)) s @ comma_new n s", simplified]
      upd_append upd_upd split: sum.splits)

lemma addProperty_nf:
  "n < length s \<Longrightarrow> \<not> not_undefined a \<Longrightarrow>
   addProperty n k a s =
     (Returned (Some (length s)),
      upd n (\<lambda>b. add_b (length s)
                   (add_b (Suc (length s) + length (comma_new n s))
                      (comma_b (Suc (length s)) b))) s
        @ ([fresh_rec JsonK (Some n)] @ comma_new n s @ [raw_rec (Some n) (dq # k @ dq # '':'')]))"
  by (simp add: addProperty_def new_builder_eq insertComma_nf new_raw_eq addChild_upd
      comma_new_snoc upd_append upd_upd)

lemma addItem_nf:
  "n < length s \<Longrightarrow> \<not> not_undefined a \<Longrightarrow>
   addItem n a s =
     (Returned (Some (length s)),
      upd n (\<lambda>b. add_b (length s) (comma_b (Suc (length s)) b)) s
        @ ([fresh_rec JsonK (Some n)] @ comma_new n s))"
  by (simp add: addItem_def new_builder_eq insertComma_nf addChild_upd
      comma_new_snoc upd_append upd_upd)

lemma shapeI: "basic F \<Longrightarrow> s' = upd n F s @ t \<Longrightarrow> shape n s s'"
  by (auto simp: shape_def)

lemma upd_id: "upd n (\<lambda>b. b) s = s"
  by (simp add: upd_def)

lemma shape_refl: "shape n s s"
  by (rule shapeI[OF basic_id, where t = "[]"]) (simp add: upd_id)

lemma shape_call: "n < length s \<Longrightarrow> shape n s (snd (call n f s))"
proof -
  assume n: "n < length s"
  note b = basic_id basic_add basic_end basic_comma
  have v: "shape n s (snd (valueJ n v s))" for v
    by (cases "stringify v")
       (auto simp: valueJ_nf[OF n] intro!: shapeI[OF _ refl] b)
  have pp: "shape n s (snd (pushProperty n k v s))" for k v
    by (cases "stringify v")
       (auto simp: pushProperty_nf[OF n] intro!: shapeI[OF _ refl] b)
  have pi: "shape n s (snd (pushItem n v s))" for v
    by (cases "stringify v")
       (auto simp: pushItem_nf[OF n] intro!: shapeI[OF _ refl] b)
  have ap: "shape n s (snd (addProperty n k a s))" for k a
  proof (cases "not_undefined a")
    case True then show ?thesis using pp by (simp add: addProperty_def)
  next
    case False then show ?thesis
      by (auto simp: addProperty_nf[OF n] intro!: shapeI[OF _ refl] b)
  qed
  have ai: "shape n s (snd (addItem n a s))" for a
  proof (cases "not_undefined a")
    case True then show ?thesis using pi by (simp add: addItem_def)
  next
    case False then show ?thesis
      by (auto simp: addItem_nf[OF n] intro!: shapeI[OF _ refl] b)
  qed
  have pr: "shape n s (snd (primitive n p s))" for p
    by (auto simp: primitive_nf[OF n] intro!: shapeI[OF _ refl] b)
  have ej: "shape n s (snd (endJ n s))"
    by (auto simp: endJ_nf[OF n] simp del: append_Nil2 intro!: shapeI[OF _ refl] b)
  have eo: "shape n s (snd (endO n s))"
    by (auto simp: endO_nf[OF n] intro!: shapeI[OF _ refl] b)
  have ea: "shape n s (snd (endA n s))"
    by (auto simp: endA_nf[OF n] intro!: shapeI[OF _ refl] b)
  have oj: "shape n s (snd (objectJ n d s))" for d
  proof (cases d)
    case None then show ?thesis
      by (auto simp: objectJ_nf[OF n] intro!: shapeI[OF _ refl] b)
  next
    case (Some kvs) then show ?thesis using v by (simp add: objectJ_def)
  qed
  have aj: "shape n s (snd (arrayJ n d s))" for d
  proof (cases d)
    case None then show ?thesis
      by (auto simp: arrayJ_nf[OF n] intro!: shapeI[OF _ refl] b)
  next
    case (Some kvs) then show ?thesis using v by (simp add: arrayJ_def)
  qed
  show ?thesis
    by (simp add: call_def pr ej eo ea oj aj ap ai shape_refl split: kind.splits op.splits)
qed

lemma shape_length: "shape n s s' \<Longrightarrow> length s \<le> length s'"
  by (auto simp: shape_def)

lemma shape_frame: "shape n s s' \<Longrightarrow> m < length s \<Longrightarrow> m \<noteq> n \<Longrightarrow> s' ! m = s ! m"
  by (cases "n < length s") (auto simp: shape_def nth_append upd_def)

lemma basic_current: "basic F \<Longrightarrow> current b = Some c \<Longrightarrow> current (F b) = Some c"
  by (induction rule: basic.induct)
     (simp_all add: add_b_def end_b_def comma_b_def consume_b_def)

lemma basic_after_end:
  assumes "basic F" and "endScheduled b" and "current b = None \<Longrightarrow> queue b = [] \<and> ended b"
  shows "\<exists>x. F b = b\<lparr>firstInserted := x\<rparr>"
  using assms
proof (induction rule: basic.induct)
  case basic_id
  have "b = b\<lparr>firstInserted := firstInserted b\<rparr>" by simp
  then show ?case by blast
next
  case (basic_add F c)
  then obtain x where "F b = b\<lparr>firstInserted := x\<rparr>" by blast
  then show ?case using basic_add.prems by (auto simp: add_b_def)
next
  case (basic_end F)
  then obtain x where x: "F b = b\<lparr>firstInserted := x\<rparr>" by blast
  have "end_b (F b) = F b"
    using basic_end.prems unfolding x
    by (cases "current b") (auto simp: end_b_def consume_b_def)
  then show ?case using x by auto
next
  case (basic_comma F c)
  then obtain x where "F b = b\<lparr>firstInserted := x\<rparr>" by blast
  then show ?case using basic_comma.prems by (auto simp: comma_b_def add_b_def)
qed

lemma reach_run: "reach s \<Longrightarrow> reach (run es s)"
  unfolding run_def by (induction es arbitrary: s) (simp_all add: reach_fire)

lemma endScheduled_consume_b [simp]: "endScheduled (consume_b b) = endScheduled b"
  by (simp add: consume_b_def split: option.splits list.splits)

lemma endScheduled_add_b [simp]: "endScheduled (add_b c b) = endScheduled b"
  by (simp add: add_b_def)

lemma endScheduled_comma_b [simp]: "endScheduled (comma_b c b) = endScheduled b"
  by (simp add: comma_b_def)

lemma add_b_holds:
  assumes "\<not> endScheduled b"
  shows "c \<in> set (queue (add_b c b)) \<union> set_option (current (add_b c b))"
proof (cases "current b")
  case None
  obtain q0 q where q: "queue b @ [c] = q0 # q" by (cases "queue b @ [c]") auto
  have "c \<in> set (q0 # q)" unfolding q[symmetric] by simp
  then show ?thesis using assms None q by (auto simp: add_b_def consume_b_def)
next
  case (Some x)
  then show ?thesis using assms by (simp add: add_b_def consume_b_def)
qed

lemma call_returns:
  assumes "n < length s" and "has_method (kind (s ! n)) f" and "encodable f"
  shows "\<exists>h. fst (call n f s) = Returned h"
proof (cases f)
  case (Primitive p)
  then show ?thesis using assms
    by (auto simp: call_def primitive_nf has_method_def split: kind.splits)
next
  case (ObjectOp d)
  show ?thesis
  proof (cases d)
    case None
    then show ?thesis using assms ObjectOp
      by (auto simp: call_def objectJ_nf has_method_def split: kind.splits)
  next
    case (Some kvs)
    then show ?thesis using assms ObjectOp
      by (auto simp: call_def objectJ_def valueJ_nf has_method_def encodable_def
          op_value_def split: kind.splits sum.splits)
  qed
next
  case (ArrayOp d)
  show ?thesis
  proof (cases d)
    case None
    then show ?thesis using assms ArrayOp
      by (auto simp: call_def arrayJ_nf has_method_def split: kind.splits)
  next
    case (Some vs)
    then show ?thesis using assms ArrayOp
      by (auto simp: call_def arrayJ_def valueJ_nf has_method_def encodable_def
          op_value_def split: kind.splits sum.splits)
  qed
next
  case (AddProperty k a)
  show ?thesis
  proof (cases "not_undefined a")
    case False
    then show ?thesis using assms AddProperty
      by (auto simp: call_def addProperty_nf has_method_def split: kind.splits)
  next
    case True
    then show ?thesis using assms AddProperty
      by (cases a)
         (auto simp: call_def addProperty_def pushProperty_nf not_undefined_def
            has_method_def encodable_def op_value_def split: kind.splits sum.splits)
  qed
next
  case (AddItem a)
  show ?thesis
  proof (cases "not_undefined a")
    case False
    then show ?thesis using assms AddItem
      by (auto simp: call_def addItem_nf has_method_def split: kind.splits)
  next
    case True
    then show ?thesis using assms AddItem
      by (cases a)
         (auto simp: call_def addItem_def pushItem_nf not_undefined_def
            has_method_def encodable_def op_value_def split: kind.splits sum.splits)
  qed
next
  case EndOp
  then show ?thesis using assms
    by (auto simp: call_def endJ_nf endO_nf endA_nf has_method_def split: kind.splits)
qed

lemma call_after_end:
  assumes "heap_ok s" and "n < length s" and "endScheduled (s ! n)"
  shows "\<exists>x. snd (call n f s) ! n = (s ! n)\<lparr>firstInserted := x\<rparr>"
proof -
  from shape_call[OF assms(2), of f] obtain F t
    where F: "basic F" and eq: "snd (call n f s) = upd n F s @ t"
    by (auto simp: shape_def)
  have ok: "node_ok (length s) (\<lambda>c. length (written (s ! c))) n (s ! n)"
    using assms(1,2) by (simp add: heap_ok_def)
  have "current (s ! n) = None \<Longrightarrow> queue (s ! n) = [] \<and> ended (s ! n)"
    using ok assms(3) by (auto simp: node_ok_def split: if_splits)
  from basic_after_end[OF F assms(3) this] obtain x
    where "F (s ! n) = (s ! n)\<lparr>firstInserted := x\<rparr>" by blast
  then show ?thesis using eq assms(2) by (auto simp: nth_append)
qed

lemma call_throws:
  assumes "n < length s" and "has_method (kind (s ! n)) f" and "op_value f = Some v"
    and "stringify v = Inl e"
  shows "fst (call n f s) = Threw e \<and>
         (kind (s ! n) = JsonK \<longrightarrow> take (length s) (snd (call n f s)) = s)"
proof (cases f)
  case (Primitive p)
  then show ?thesis using assms by (auto simp: op_value_def)
next
  case (ObjectOp d)
  then show ?thesis using assms
    by (cases d)
       (auto simp: call_def objectJ_def valueJ_nf has_method_def op_value_def upd_id
          split: kind.splits)
next
  case (ArrayOp d)
  then show ?thesis using assms
    by (cases d)
       (auto simp: call_def arrayJ_def valueJ_nf has_method_def op_value_def upd_id
          split: kind.splits)
next
  case (AddProperty k a)
  then show ?thesis using assms
    by (cases a)
       (auto simp: call_def addProperty_def pushProperty_nf not_undefined_def
          has_method_def op_value_def split: kind.splits)
next
  case (AddItem a)
  then show ?thesis using assms
    by (cases a)
       (auto simp: call_def addItem_def pushItem_nf not_undefined_def
          has_method_def op_value_def split: kind.splits)
next
  case EndOp
  then show ?thesis using assms by (simp add: op_value_def)
qed

lemma stringify_error:
  "stringify v = Inl e \<Longrightarrow> e = CircularStructure"
  "stringify_items vs = Inl e \<Longrightarrow> e = CircularStructure"
  "stringify_props kvs = Inl e \<Longrightarrow> e = CircularStructure"
  by (induction v and vs and kvs rule: stringify_stringify_items_stringify_props.induct)
     (auto split: sum.splits)

lemma call_not_encodable:
  assumes "n < length s" and "has_method (kind (s ! n)) f" and "\<not> encodable f"
  shows "fst (call n f s) = Threw CircularStructure"
proof -
  from assms(3) obtain v e where v: "op_value f = Some v" and e: "stringify v = Inl e"
    by (auto simp: encodable_def isl_def split: option.splits)
  from call_throws[OF assms(1,2) v e] stringify_error(1)[OF e] show ?thesis by simp
qed

section \<open>The claims\<close>

text \<open>
  Claim C3, as amended. On a builder whose end has been requested, \<open>addChildBuilder\<close> and
  every public method (\<open>primitive\<close>, \<open>object\<close>, \<open>array\<close>, \<open>addProperty\<close>, \<open>addItem\<close>,
  \<open>end\<close>) leave the queue, the current child, the pipe, the text of the stream and its
  end as they are. A call of a method the builder has returns and does not throw when
  \<open>JSON.stringify\<close> can encode the value it is given; when the value holds a circular
  structure the call throws what \<open>JSON.stringify\<close> throws, as it does before the end:
  the value is encoded before \<open>addChildBuilder\<close> looks at \<open>endScheduled\<close>.
\<close>

theorem post_end_noop:
  assumes "reach s" and "n < length s" and "endScheduled (s ! n)"
  shows "addChildBuilder n c s = s \<and>
         queue (snd (call n f s) ! n) = queue (s ! n) \<and>
         current (snd (call n f s) ! n) = current (s ! n) \<and>
         piped (snd (call n f s) ! n) = piped (s ! n) \<and>
         written (snd (call n f s) ! n) = written (s ! n) \<and>
         ended (snd (call n f s) ! n) = ended (s ! n) \<and>
         endScheduled (snd (call n f s) ! n) \<and>
         (has_method (kind (s ! n)) f \<longrightarrow>
            (if encodable f then \<exists>h. fst (call n f s) = Returned h
             else fst (call n f s) = Threw CircularStructure))"
proof -
  from call_after_end[OF reach_heap_ok[OF assms(1)] assms(2,3), of f] obtain x
    where "snd (call n f s) ! n = (s ! n)\<lparr>firstInserted := x\<rparr>" by blast
  moreover have "fst (call n f s) = Threw CircularStructure"
    if "has_method (kind (s ! n)) f" and "\<not> encodable f"
    by (rule call_not_encodable[OF assms(2) that])
  ultimately show ?thesis
    using assms(2,3) call_returns[OF assms(2), of f]
    by (simp add: addChildBuilder_def)
qed

lemma example3_run:
  "example3 = run [Call 0 (ArrayOp None), Call 1 (AddItem (Given (Prim (PNum (Finite 1))))),
                   Call 1 (AddItem (Given (Prim (PNum (Finite 2))))), Call 1 EndOp] createBuilder"
  by code_simp

theorem post_end_noop_witness:
  \<open>reach example3 \<and> 1 < length example3 \<and> endScheduled (example3 ! 1) \<and>
   has_method (kind (example3 ! 1)) (AddItem (Given (Prim (PNum (Finite 3))))) \<and>
   encodable (AddItem (Given (Prim (PNum (Finite 3))))) \<and>
   queue (snd (call 1 (AddItem (Given (Prim (PNum (Finite 3))))) example3) ! 1) = queue (example3 ! 1) \<and>
   written (snd (call 1 (AddItem (Given (Prim (PNum (Finite 3))))) example3) ! 1)
     = written (example3 ! 1) \<and>
   fst (call 1 (AddItem (Given (Prim (PNum (Finite 3))))) example3) = Returned (Some 1) \<and>
   collected (settle (snd (call 1 (AddItem (Given (Prim (PNum (Finite 3))))) example3))) 0
     = Some ''[1,2]'' \<and>
   has_method (kind (example3 ! 1)) (AddItem (Given (Arr [Circular]))) \<and>
   \<not> encodable (AddItem (Given (Arr [Circular]))) \<and>
   written (snd (call 1 (AddItem (Given (Arr [Circular]))) example3) ! 1) = written (example3 ! 1) \<and>
   fst (call 1 (AddItem (Given (Arr [Circular]))) example3) = Threw CircularStructure\<close>
proof -
  have r: "reach example3" unfolding example3_run by (rule reach_run[OF reach_init])
  have l: "1 < length example3" by code_simp
  have e: "endScheduled (example3 ! 1)" by code_simp
  have m: "has_method (kind (example3 ! 1)) (AddItem (Given (Prim (PNum (Finite 3)))))"
    by code_simp
  have d: "encodable (AddItem (Given (Prim (PNum (Finite 3)))))" by code_simp
  have f: "fst (call 1 (AddItem (Given (Prim (PNum (Finite 3))))) example3) = Returned (Some 1)"
    by code_simp
  have c: \<open>collected (settle (snd (call 1 (AddItem (Given (Prim (PNum (Finite 3))))) example3))) 0
     = Some ''[1,2]''\<close> by code_simp
  have m': "has_method (kind (example3 ! 1)) (AddItem (Given (Arr [Circular])))" by code_simp
  have d': "\<not> encodable (AddItem (Given (Arr [Circular])))" by code_simp
  from post_end_noop[OF r l e, of _ "AddItem (Given (Prim (PNum (Finite 3))))"]
    post_end_noop[OF r l e, of _ "AddItem (Given (Arr [Circular]))"] r l e m d f c m' d'
  show ?thesis by simp
qed

theorem post_end_noop_counterexample:
  "reach example3 \<and> 1 < length example3 \<and> kind (example3 ! 1) = ArrayK \<and>
   endScheduled (example3 ! 1) \<and>
   fst (call 1 (AddItem (Given (Arr [Circular]))) example3) = Threw CircularStructure \<and>
   fst (call 1 (AddItem (Given Circular)) example3) = Threw CircularStructure"
proof -
  have r: "reach example3" unfolding example3_run by (rule reach_run[OF reach_init])
  have "1 < length example3" "kind (example3 ! 1) = ArrayK" "endScheduled (example3 ! 1)"
    "fst (call 1 (AddItem (Given (Arr [Circular]))) example3) = Threw CircularStructure"
    "fst (call 1 (AddItem (Given Circular)) example3) = Threw CircularStructure"
    by code_simp+
  with r show ?thesis by simp
qed

text \<open>
  Claim C4. The chain \<open>object().addProperty('a',1).addProperty('b',2).end()\<close> on a new
  document returns \<open>null\<close> (the parent of the root), and once the streams have done their
  work the root stream has ended with exactly the text \<open>{"a":1,"b":2}\<close>.
\<close>

theorem example_two_text:
  \<open>fst (chain [ObjectOp None, AddProperty ''a'' (Given (Prim (PNum (Finite 1)))),
               AddProperty ''b'' (Given (Prim (PNum (Finite 2)))), EndOp]
          (Returned (Some 0), createBuilder)) = Returned None \<and>
   collected
     (settle (snd (chain [ObjectOp None, AddProperty ''a'' (Given (Prim (PNum (Finite 1)))),
                     AddProperty ''b'' (Given (Prim (PNum (Finite 2)))), EndOp]
                (Returned (Some 0), createBuilder)))) 0
     = Some ''{"a":1,"b":2}''\<close>
  by code_simp

text \<open>
  Claim C5, as amended. On every reachable arena, a builder that is not a value builder
  has ended its stream if and only if its end is scheduled, its queue is empty and it has
  no current child; so it never ends its stream before its end is requested. A value
  builder has no end scheduled at any time: \<open>rawValue\<close> ends its stream.
\<close>

theorem closure_iff:
  assumes "reach s" and "n < length s"
  shows "if kind (s ! n) = ValueK
         then \<not> endScheduled (s ! n) \<and> queue (s ! n) = [] \<and> current (s ! n) = None
         else (ended (s ! n) \<longleftrightarrow>
                 endScheduled (s ! n) \<and> queue (s ! n) = [] \<and> current (s ! n) = None) \<and>
              (\<not> endScheduled (s ! n) \<longrightarrow> \<not> ended (s ! n))"
proof -
  have "node_ok (length s) (\<lambda>c. length (written (s ! c))) n (s ! n)"
    using reach_heap_ok[OF assms(1)] assms(2) by (simp add: heap_ok_def)
  then show ?thesis by (auto simp: node_ok_def split: if_splits)
qed

theorem closure_iff_witness:
  "reach primitive42_done \<and> 0 < length primitive42_done \<and>
   kind (primitive42_done ! 0) = JsonK \<and> ended (primitive42_done ! 0) \<and>
   endScheduled (primitive42_done ! 0) \<and> queue (primitive42_done ! 0) = [] \<and>
   current (primitive42_done ! 0) = None"
proof -
  have r: "reach primitive42_done"
    unfolding primitive42_done_def by (rule reach_run[OF reach_init])
  have l: "0 < length primitive42_done" by code_simp
  have k: "kind (primitive42_done ! 0) = JsonK" by code_simp
  have e: "endScheduled (primitive42_done ! 0)" by code_simp
  have q: "queue (primitive42_done ! 0) = []" by code_simp
  have c: "current (primitive42_done ! 0) = None" by code_simp
  from closure_iff[OF r l] k e q c have "ended (primitive42_done ! 0)" by simp
  with r l k e q c show ?thesis by simp
qed

theorem closure_counterexample:
  "reach primitive42 \<and> 1 < length primitive42 \<and> kind (primitive42 ! 1) = ValueK \<and>
   ended (primitive42 ! 1) \<and> \<not> endScheduled (primitive42 ! 1) \<and>
   \<not> (ended (primitive42 ! 1) \<longleftrightarrow>
        endScheduled (primitive42 ! 1) \<and> queue (primitive42 ! 1) = [] \<and>
        current (primitive42 ! 1) = None)"
proof -
  have r: "reach primitive42"
    unfolding primitive42_def by (rule reach_fire[OF reach_init])
  have "1 < length primitive42" "kind (primitive42 ! 1) = ValueK"
    "ended (primitive42 ! 1)" "\<not> endScheduled (primitive42 ! 1)"
    by code_simp+
  with r show ?thesis by simp
qed

text \<open>
  Claim C8. On every reachable arena a builder has at most one source piped into its
  stream, and that source is its current child. A step that takes the current child \<open>c\<close>
  away from a builder is the \<open>end\<close> event of \<open>c\<close>: the stream of \<open>c\<close> has ended and the
  pipe has copied all of it.
\<close>

theorem one_active_child:
  assumes "reach s" and "n < length s"
  shows "length (piped (s ! n)) \<le> 1 \<and>
         map fst (piped (s ! n)) = (case current (s ! n) of None \<Rightarrow> [] | Some c \<Rightarrow> [c]) \<and>
         (current (s ! n) = Some c \<and> current (fire e s ! n) \<noteq> Some c \<longrightarrow>
            e = ChildEnd n c \<and> ended (s ! c) \<and> piped (s ! n) = [(c, length (written (s ! c)))])"
proof -
  have ok: "node_ok (length s) (\<lambda>c. length (written (s ! c))) n (s ! n)"
    using reach_heap_ok[OF assms(1)] assms(2) by (simp add: heap_ok_def)
  then have m: "map fst (piped (s ! n)) = (case current (s ! n) of None \<Rightarrow> [] | Some c \<Rightarrow> [c])"
    by (simp add: node_ok_def)
  then have "length (map fst (piped (s ! n))) \<le> 1" by (simp split: option.splits)
  then have l: "length (piped (s ! n)) \<le> 1" by simp
  have step: "e = ChildEnd n c \<and> ended (s ! c) \<and> piped (s ! n) = [(c, length (written (s ! c)))]"
    if cur: "current (s ! n) = Some c" and ch: "current (fire e s ! n) \<noteq> Some c"
  proof (cases e)
    case (Call m f)
    show ?thesis
    proof (cases "m < length s")
      case False
      then show ?thesis using Call cur ch by (simp add: fire_def)
    next
      case True
      from shape_call[OF True, of f] obtain F t
        where F: "basic F" and eq: "snd (call m f s) = upd m F s @ t"
        by (auto simp: shape_def)
      have "current (fire e s ! n) = Some c"
        using Call True eq assms(2) cur basic_current[OF F, of "s ! n" c]
        by (auto simp: fire_def nth_append)
      with ch show ?thesis by simp
    qed
  next
    case (Flow d c')
    have "current (fire e s ! n) = Some c"
      using Flow cur assms(2)
      by (auto simp: fire_def flow_def split: option.splits)
    with ch show ?thesis by simp
  next
    case (ChildEnd d c')
    show ?thesis
    proof (cases "d = n \<and> c' < length s")
      case False
      then have "current (fire e s ! n) = Some c"
        using ChildEnd cur assms(2)
        by (auto simp: fire_def childEnd_def consume_upd split: option.splits)
      with ch show ?thesis by simp
    next
      case True
      show ?thesis
      proof (cases "map_of (piped (s ! n)) c'")
        case None
        then have "current (fire e s ! n) = Some c"
          using ChildEnd cur True by (simp add: fire_def childEnd_def)
        with ch show ?thesis by simp
      next
        case (Some k)
        from piped_single[OF ok Some] cur have c': "c' = c" and p: "piped (s ! n) = [(c, k)]"
          by simp_all
        show ?thesis
        proof (cases "ended (s ! c) \<and> k = length (written (s ! c))")
          case False
          then have "current (fire e s ! n) = Some c"
            using ChildEnd cur True Some c' by (auto simp: fire_def childEnd_def)
          with ch show ?thesis by simp
        next
          case True': True
          then show ?thesis using ChildEnd True c' p by simp
        qed
      qed
    qed
  qed
  from l m step show ?thesis by blast
qed

theorem one_active_child_witness:
  "reach primitive42_flowing \<and> 0 < length primitive42_flowing \<and>
   length (piped (primitive42_flowing ! 0)) \<le> 1 \<and>
   current (primitive42_flowing ! 0) = Some 1 \<and>
   current (fire (ChildEnd 0 1) primitive42_flowing ! 0) \<noteq> Some 1 \<and>
   ended (primitive42_flowing ! 1) \<and>
   piped (primitive42_flowing ! 0) = [(1, length (written (primitive42_flowing ! 1)))]"
proof -
  have r: "reach primitive42_flowing"
    unfolding primitive42_flowing_def by (rule reach_run[OF reach_init])
  have l: "0 < length primitive42_flowing" by code_simp
  have c: "current (primitive42_flowing ! 0) = Some 1" by code_simp
  have d: "current (fire (ChildEnd 0 1) primitive42_flowing ! 0) \<noteq> Some 1" by code_simp
  from one_active_child[OF r l, of 1 "ChildEnd 0 1"] r l c d show ?thesis by simp
qed

text \<open>
  Claim C9. On a JSON builder that has had no call yet, \<open>primitive(value)\<close> creates one
  value builder that holds the encoding of the value and is ended already, makes it the
  (only) child, schedules the end of the builder itself and returns the parent; when the
  pipe has copied the child and the child's \<open>end\<close> has fired, the stream of the builder
  has ended with exactly the encoding of the value.
\<close>

theorem primitive_on_new_context:
  assumes "n < length s" and "kind (s ! n) = JsonK" and "queue (s ! n) = []"
    and "current (s ! n) = None" and "\<not> endScheduled (s ! n)" and "piped (s ! n) = []"
    and "written (s ! n) = []"
  shows "call n (Primitive p) s = primitive n p s \<and>
         fst (primitive n p s) = Returned (parent (s ! n)) \<and>
         length (snd (primitive n p s)) = Suc (length s) \<and>
         snd (primitive n p s) ! length s = raw_rec (parent (s ! n)) (stringify_prim p) \<and>
         queue (snd (primitive n p s) ! n) = [] \<and>
         current (snd (primitive n p s) ! n) = Some (length s) \<and>
         endScheduled (snd (primitive n p s) ! n) \<and>
         collected (childEnd n (length s) (flow n (length s) (snd (primitive n p s)))) n
           = Some (stringify_prim p)"
  using assms
  by (simp add: call_def primitive_nf nth_append add_b_def end_b_def consume_b_def
      flow_def childEnd_def collected_def consume_upd upd_upd raw_rec_def)

theorem primitive_on_new_context_witness:
  "0 < length createBuilder \<and> kind (createBuilder ! 0) = JsonK \<and> queue (createBuilder ! 0) = [] \<and>
   current (createBuilder ! 0) = None \<and> \<not> endScheduled (createBuilder ! 0) \<and>
   piped (createBuilder ! 0) = [] \<and> written (createBuilder ! 0) = [] \<and>
   fst (primitive 0 (PNum (Finite 42)) createBuilder) = Returned None \<and>
   collected (childEnd 0 1 (flow 0 1 (snd (primitive 0 (PNum (Finite 42)) createBuilder)))) 0
     = Some ''42''"
proof -
  have h: "0 < length createBuilder" "kind (createBuilder ! 0) = JsonK"
    "queue (createBuilder ! 0) = []" "current (createBuilder ! 0) = None"
    "\<not> endScheduled (createBuilder ! 0)" "piped (createBuilder ! 0) = []"
    "written (createBuilder ! 0) = []"
    by (simp_all add: createBuilder_def new_builder_def)
  have l: "length createBuilder = 1" "parent (createBuilder ! 0) = None"
    by (simp_all add: createBuilder_def new_builder_def)
  have t: "stringify_prim (PNum (Finite 42)) = ''42''" by code_simp
  from primitive_on_new_context[OF h, of "PNum (Finite 42)"] h l t show ?thesis by simp
qed

text \<open>
  Claim C10. \<open>addProperty(k, undefined)\<close> and \<open>addItem(undefined)\<close> do what the calls
  without a value do: on a builder whose end is not scheduled they return a new JSON
  builder, whose parent is the receiver and which the receiver holds in its queue or as its
  current child.
\<close>

theorem undefined_is_no_value:
  assumes "n < length s" and "\<not> endScheduled (s ! n)"
  shows "addProperty n k Undefined s = addProperty n k Omitted s \<and>
         addItem n Undefined s = addItem n Omitted s \<and>
         fst (addProperty n k Undefined s) = Returned (Some (length s)) \<and>
         fst (addItem n Undefined s) = Returned (Some (length s)) \<and>
         snd (addProperty n k Undefined s) ! length s = fresh_rec JsonK (Some n) \<and>
         snd (addItem n Undefined s) ! length s = fresh_rec JsonK (Some n) \<and>
         length s \<in> set (queue (snd (addProperty n k Undefined s) ! n))
                    \<union> set_option (current (snd (addProperty n k Undefined s) ! n)) \<and>
         length s \<in> set (queue (snd (addItem n Undefined s) ! n))
                    \<union> set_option (current (snd (addItem n Undefined s) ! n))"
proof -
  have u: "\<not> not_undefined Undefined" "\<not> not_undefined Omitted"
    by (simp_all add: not_undefined_def)
  have e1: "\<not> endScheduled (add_b c (comma_b c' (s ! n)))" for c c'
    using assms(2) by simp
  have e2: "\<not> endScheduled (comma_b c' (s ! n))" for c'
    using assms(2) by simp
  show ?thesis
    using assms(1) add_b_holds[OF e1, of "length s"] add_b_holds[OF e2, of "length s"]
    by (simp add: addProperty_nf[OF assms(1)] addItem_nf[OF assms(1)] u nth_append)
qed

theorem undefined_is_no_value_witness:
  "1 < length (fire (Call 0 (ObjectOp None)) createBuilder) \<and>
   \<not> endScheduled (fire (Call 0 (ObjectOp None)) createBuilder ! 1) \<and>
   addProperty 1 ''k'' Undefined (fire (Call 0 (ObjectOp None)) createBuilder)
     = addProperty 1 ''k'' Omitted (fire (Call 0 (ObjectOp None)) createBuilder) \<and>
   fst (addProperty 1 ''k'' Undefined (fire (Call 0 (ObjectOp None)) createBuilder))
     = Returned (Some 3)"
proof -
  have l: "1 < length (fire (Call 0 (ObjectOp None)) createBuilder)" by code_simp
  have e: "\<not> endScheduled (fire (Call 0 (ObjectOp None)) createBuilder ! 1)" by code_simp
  have n: "length (fire (Call 0 (ObjectOp None)) createBuilder) = 3" by code_simp
  note th = undefined_is_no_value[OF l e, of "''k''"]
  from th have a: "addProperty 1 ''k'' Undefined (fire (Call 0 (ObjectOp None)) createBuilder)
     = addProperty 1 ''k'' Omitted (fire (Call 0 (ObjectOp None)) createBuilder)" by blast
  from th have b: "fst (addProperty 1 ''k'' Undefined (fire (Call 0 (ObjectOp None)) createBuilder))
     = Returned (Some (length (fire (Call 0 (ObjectOp None)) createBuilder)))" by blast
  show ?thesis using l e a b[unfolded n] by (intro conjI)
qed

lemma circular_free_stringify:
  "circular_free v \<Longrightarrow> \<not> isl (stringify v)"
  "list_all circular_free vs \<Longrightarrow> \<not> isl (stringify_items vs)"
  "list_all circular_free (map snd kvs) \<Longrightarrow> \<not> isl (stringify_props kvs)"
  by (induction v and vs and kvs rule: stringify_stringify_items_stringify_props.induct)
     (auto split: sum.splits)

lemma circular_free_encodes: "circular_free v \<Longrightarrow> \<exists>t. stringify v = Inr t"
  using circular_free_stringify(1)[of v] by (cases "stringify v") auto

text \<open>
  Claim C6, as amended. A call that has to encode a value never throws when the value
  holds no circular structure, whatever numbers it holds: \<open>JSON.stringify\<close> encodes a
  number that is not finite as \<open>null\<close>. When the value holds a circular structure the call
  throws at once what \<open>JSON.stringify\<close> throws, and \<open>primitive\<close>, \<open>object(data)\<close> and
  \<open>array(data)\<close> then leave every builder of the arena as it was.
\<close>

theorem encoding_failure:
  assumes "n < length s" and "has_method (kind (s ! n)) f" and "op_value f = Some v"
  shows "(circular_free v \<longrightarrow> (\<exists>h. fst (call n f s) = Returned h)) \<and>
         (\<not> is_finite x \<longrightarrow> stringify (Prim (PNum x)) = Inr ''null'') \<and>
         (stringify v = Inl e \<longrightarrow>
            fst (call n f s) = Threw e \<and>
            (kind (s ! n) = JsonK \<longrightarrow> take (length s) (snd (call n f s)) = s))"
proof -
  have a: "\<exists>h. fst (call n f s) = Returned h" if "circular_free v"
    using circular_free_encodes[OF that] assms(3) call_returns[OF assms(1,2)]
    by (auto simp: encodable_def)
  have b: "stringify (Prim (PNum x)) = Inr ''null''" if "\<not> is_finite x"
    using that by (cases x) (simp_all add: is_finite_def stringify_prim_def stringify_num_def)
  show ?thesis using a b call_throws[OF assms] by blast
qed

theorem encoding_failure_witness:
  "0 < length createBuilder \<and> has_method (kind (createBuilder ! 0)) (ArrayOp (Some [Circular])) \<and>
   op_value (ArrayOp (Some [Circular])) = Some (Arr [Circular]) \<and>
   stringify (Arr [Circular]) = Inl CircularStructure \<and> kind (createBuilder ! 0) = JsonK \<and>
   fst (call 0 (ArrayOp (Some [Circular])) createBuilder) = Threw CircularStructure \<and>
   take (length createBuilder) (snd (call 0 (ArrayOp (Some [Circular])) createBuilder))
     = createBuilder \<and>
   \<not> is_finite NaN \<and> stringify (Prim (PNum NaN)) = Inr ''null''"
proof -
  have l: "0 < length createBuilder" by code_simp
  have m: "has_method (kind (createBuilder ! 0)) (ArrayOp (Some [Circular]))" by code_simp
  have v: "op_value (ArrayOp (Some [Circular])) = Some (Arr [Circular])" by code_simp
  have t: "stringify (Arr [Circular]) = Inl CircularStructure" by code_simp
  have k: "kind (createBuilder ! 0) = JsonK" by code_simp
  have x: "\<not> is_finite NaN" by code_simp
  from encoding_failure[OF l m v, of NaN CircularStructure] l m v t k x
  show ?thesis by simp
qed

theorem encoding_failure_counterexample:
  "fst (call 0 (Primitive (PNum NaN)) createBuilder) = Returned None \<and>
   collected (settle (snd (call 0 (Primitive (PNum NaN)) createBuilder))) 0 = Some ''null''"
  by code_simp

lemma pushProperty_fst:
  "stringify v = Inr t \<Longrightarrow> fst (pushProperty n k v s) = Returned (Some n)"
  by (simp add: pushProperty_def new_builder_def)

lemma pushItem_fst:
  "stringify v = Inr t \<Longrightarrow> fst (pushItem n v s) = Returned (Some n)"
  by (simp add: pushItem_def new_builder_def valueV_def)

lemma addProperty_given: "addProperty n k (Given v) s = pushProperty n k v s"
  by (simp add: addProperty_def not_undefined_def)

lemma addItem_given: "addItem n (Given v) s = pushItem n v s"
  by (simp add: addItem_def not_undefined_def)

lemma addProperties_fold:
  "list_all circular_free (map snd kvs) \<Longrightarrow>
   addProperties n kvs s =
     (Returned (Some n), foldl (\<lambda>s (k, v). snd (addProperty n k (Given v) s)) s kvs)"
proof (induction kvs arbitrary: s)
  case Nil
  then show ?case by simp
next
  case (Cons kv kvs)
  obtain k v where kv: "kv = (k, v)" by (cases kv)
  from Cons.prems kv obtain t where t: "stringify v = Inr t"
    using circular_free_encodes[of v] by auto
  obtain r s1 where p: "pushProperty n k v s = (r, s1)" by (cases "pushProperty n k v s")
  with pushProperty_fst[OF t, of n k s] have r: "r = Returned (Some n)" by simp
  show ?case using Cons kv p r by (simp add: addProperty_given)
qed

lemma addItems_fold:
  "list_all circular_free vs \<Longrightarrow>
   addItems n vs s = (Returned (Some n), foldl (\<lambda>s v. snd (addItem n (Given v) s)) s vs)"
proof (induction vs arbitrary: s)
  case Nil
  then show ?case by simp
next
  case (Cons v vs)
  from Cons.prems obtain t where t: "stringify v = Inr t"
    using circular_free_encodes[of v] by auto
  obtain r s1 where p: "pushItem n v s = (r, s1)" by (cases "pushItem n v s")
  with pushItem_fst[OF t, of n s] have r: "r = Returned (Some n)" by simp
  show ?case using Cons p r by (simp add: addItem_given)
qed

text \<open>
  Claim C7. \<open>addProperties\<close> does \<open>addProperty(key, value)\<close> once for every entry of the
  map, in order, and \<open>addItems\<close> does \<open>addItem(value)\<close> once for every element of the
  sequence, in order; both return the builder they were called on, and with no entry
  they change nothing.
\<close>

theorem bulk_forms:
  assumes "list_all circular_free (map snd kvs)" and "list_all circular_free vs"
  shows "addProperties n kvs s =
           (Returned (Some n), foldl (\<lambda>s (k, v). snd (addProperty n k (Given v) s)) s kvs) \<and>
         addItems n vs s =
           (Returned (Some n), foldl (\<lambda>s v. snd (addItem n (Given v) s)) s vs) \<and>
         addProperties n [] s = (Returned (Some n), s) \<and>
         addItems n [] s = (Returned (Some n), s)"
  using addProperties_fold[OF assms(1)] addItems_fold[OF assms(2)] by simp

theorem bulk_forms_witness:
  \<open>list_all circular_free (map snd [(''x'', Prim (PStr ''a'')), (''y'', Prim (PStr ''b''))]) \<and>
   list_all circular_free [Prim (PStr ''x''), Prim (PStr ''y'')] \<and>
   fst (addProperties 1 [(''x'', Prim (PStr ''a'')), (''y'', Prim (PStr ''b''))] bulk_object)
     = Returned (Some 1) \<and>
   snd (addProperties 1 [(''x'', Prim (PStr ''a'')), (''y'', Prim (PStr ''b''))] bulk_object)
     = snd (addProperty 1 ''y'' (Given (Prim (PStr ''b'')))
         (snd (addProperty 1 ''x'' (Given (Prim (PStr ''a''))) bulk_object))) \<and>
   collected
     (settle (snd (chain [AddProperty ''baz'' (Given (Obj [(''a'', Prim (PNum (Finite 1)))])), EndOp]
           (addProperties 1 [(''x'', Prim (PStr ''a'')), (''y'', Prim (PStr ''b''))]
              (snd (addProperties 1 [] bulk_object)))))) 0
     = Some ''{"foo":null,"bar":42,"x":"a","y":"b","baz":{"a":1}}''\<close>
proof -
  have a: "list_all circular_free (map snd [(''x'', Prim (PStr ''a'')), (''y'', Prim (PStr ''b''))])"
    by simp
  have b: "list_all circular_free [Prim (PStr ''x''), Prim (PStr ''y'')]" by simp
  have c: \<open>collected
     (settle (snd (chain [AddProperty ''baz'' (Given (Obj [(''a'', Prim (PNum (Finite 1)))])), EndOp]
           (addProperties 1 [(''x'', Prim (PStr ''a'')), (''y'', Prim (PStr ''b''))]
              (snd (addProperties 1 [] bulk_object)))))) 0
     = Some ''{"foo":null,"bar":42,"x":"a","y":"b","baz":{"a":1}}''\<close>
    by code_simp
  from bulk_forms[OF a b, of 1 bulk_object] a b c show ?thesis by simp
qed

text \<open>
  Claim C1. A key is copied between two quotes as it is: built member by member, the
  object with the one property \<open>a"b\<close> of value \<open>1\<close> ends as the text \<open>{"a"b":1}\<close>,
  and built in one call it ends as the text that \<open>JSON.stringify\<close> gives, in which the
  quote of the key is escaped.
\<close>

theorem unescaped_key:
  \<open>collected
     (settle (snd (chain [ObjectOp None, AddProperty ''a"b'' (Given (Prim (PNum (Finite 1)))), EndOp]
           (Returned (Some 0), createBuilder)))) 0
     = Some ''{"a"b":1}'' \<and>
   collected
     (settle (snd (chain [ObjectOp None, AddProperty ''a"b'' Omitted, Primitive (PNum (Finite 1)), EndOp]
           (Returned (Some 0), createBuilder)))) 0
     = Some ''{"a"b":1}'' \<and>
   collected
     (settle (snd (chain [ObjectOp (Some [(''a"b'', Prim (PNum (Finite 1)))])]
           (Returned (Some 0), createBuilder)))) 0
     = Some (''{"a'' @ [bs] @ ''"b":1}'') \<and>
   stringify (Obj [(''a"b'', Prim (PNum (Finite 1)))]) = Inr (''{"a'' @ [bs] @ ''"b":1}'')\<close>
  by code_simp

section \<open>The order of the calls\<close>

lemma den_iff: "den s R n t \<longleftrightarrow> n < length s \<and> (\<exists>t0. loc (den s R) (s ! n) t0 \<and> t = t0 @ R n)"
proof
  assume "den s R n t"
  then show "n < length s \<and> (\<exists>t0. loc (den s R) (s ! n) t0 \<and> t = t0 @ R n)"
  proof (cases rule: den.cases)
    case (denI ps qs)
    have "loc (den s R) (s ! n)
            (written (s ! n) @ concat (map2 drop (map snd (piped (s ! n))) ps) @ concat qs)"
      unfolding loc_def using denI(3,4) by blast
    then show ?thesis using denI(1,2) by auto
  qed
next
  assume "n < length s \<and> (\<exists>t0. loc (den s R) (s ! n) t0 \<and> t = t0 @ R n)"
  then obtain ps qs where "n < length s"
    and "list_all2 (den s R) (map fst (piped (s ! n))) ps"
    and "list_all2 (den s R) (queue (s ! n)) qs"
    and "t = (written (s ! n) @ concat (map2 drop (map snd (piped (s ! n))) ps) @ concat qs) @ R n"
    unfolding loc_def by blast
  then show "den s R n t" using denI[of n s R ps qs] by simp
qed

lemma loc_mono: "loc D b t \<Longrightarrow> (\<And>c p. D c p \<Longrightarrow> D' c p) \<Longrightarrow> loc D' b t"
  unfolding loc_def by (blast intro: list_all2_mono)

lemma den_step:
  assumes L: "length s \<le> length s'"
    and frame: "\<And>m. m < length s \<Longrightarrow> m \<noteq> n \<Longrightarrow> s' ! m = s ! m \<and> R' m = R m"
    and local: "\<And>t0. loc (den s' R') (s ! n) t0 \<Longrightarrow>
                  \<exists>t1. loc (den s' R') (s' ! n) t1 \<and> t1 @ R' n = t0 @ R n"
  shows "den s R m t \<Longrightarrow> den s' R' m t"
proof (induction rule: den.induct)
  case (denI m ps qs)
  have l: "loc (den s' R') (s ! m)
             (written (s ! m) @ concat (map2 drop (map snd (piped (s ! m))) ps) @ concat qs)"
    unfolding loc_def using denI.IH
    by (blast intro: list_all2_mono)
  show ?case
  proof (cases "m = n")
    case True
    from local[OF l[unfolded True]] obtain t1
      where "loc (den s' R') (s' ! n) t1"
        and "t1 @ R' n = (written (s ! n) @ concat (map2 drop (map snd (piped (s ! n))) ps)
                             @ concat qs) @ R n"
      by blast
    then show ?thesis using True denI.hyps L by (auto simp: den_iff)
  next
    case False
    with frame[OF denI.hyps(1) False] l denI.hyps L show ?thesis
      by (auto simp: den_iff)
  qed
qed

lemma loc_consume: "loc D b t \<Longrightarrow> loc D (consume_b b) t"
proof (cases "current b")
  case (Some c)
  then show "loc D b t \<Longrightarrow> ?thesis" by (simp add: consume_b_def)
next
  case None
  assume l: "loc D b t"
  show ?thesis
  proof (cases "queue b")
    case Nil
    then show ?thesis using l None by (simp add: consume_b_def loc_def)
  next
    case (Cons c q)
    from l obtain ps qs where ps: "list_all2 D (map fst (piped b)) ps"
      and qs: "list_all2 D (queue b) qs"
      and t: "t = written b @ concat (map2 drop (map snd (piped b)) ps) @ concat qs"
      unfolding loc_def by blast
    from qs Cons obtain p qs' where q: "qs = p # qs'" "D c p" "list_all2 D q qs'"
      by (auto simp: list_all2_Cons1)
    have len: "length (map snd (piped b)) = length ps"
      using ps by (auto dest: list_all2_lengthD)
    have a: "list_all2 D (map fst (piped b @ [(c, 0)])) (ps @ [p])"
      using ps q(2) by (simp add: list_all2_appendI)
    have b: "concat (map2 drop (map snd (piped b @ [(c, 0)])) (ps @ [p])) @ concat qs'
             = concat (map2 drop (map snd (piped b)) ps) @ concat qs"
      using len q(1) by simp
    have cb: "consume_b b = b\<lparr>queue := q, current := Some c, piped := piped b @ [(c, 0)]\<rparr>"
      using None Cons by (simp add: consume_b_def)
    have "list_all2 D (map fst (piped (consume_b b))) (ps @ [p]) \<and>
          list_all2 D (queue (consume_b b)) qs' \<and>
          t = written (consume_b b)
                @ concat (map2 drop (map snd (piped (consume_b b))) (ps @ [p])) @ concat qs'"
      using a b q(3) t unfolding cb by simp
    then show ?thesis unfolding loc_def by blast
  qed
qed

lemma loc_push:
  assumes "loc D b t" and "D c p"
  shows "loc D (b\<lparr>queue := queue b @ [c]\<rparr>) (t @ p)"
proof -
  from assms(1) obtain ps qs where ps: "list_all2 D (map fst (piped b)) ps"
    and qs: "list_all2 D (queue b) qs"
    and t: "t = written b @ concat (map2 drop (map snd (piped b)) ps) @ concat qs"
    unfolding loc_def by blast
  have "list_all2 D (map fst (piped (b\<lparr>queue := queue b @ [c]\<rparr>))) ps \<and>
        list_all2 D (queue (b\<lparr>queue := queue b @ [c]\<rparr>)) (qs @ [p]) \<and>
        t @ p = written (b\<lparr>queue := queue b @ [c]\<rparr>)
                  @ concat (map2 drop (map snd (piped (b\<lparr>queue := queue b @ [c]\<rparr>))) ps)
                  @ concat (qs @ [p])"
    using ps qs t assms(2) by (simp add: list_all2_appendI)
  then show ?thesis unfolding loc_def by blast
qed

lemma loc_add_b:
  "loc D b t \<Longrightarrow> D c p \<Longrightarrow> loc D (add_b c b) (t @ (if endScheduled b then [] else p))"
  by (simp add: add_b_def loc_consume loc_push)

lemma loc_flags [simp]:
  "loc D (b\<lparr>endScheduled := x\<rparr>) t = loc D b t"
  "loc D (b\<lparr>firstInserted := y\<rparr>) t = loc D b t"
  by (simp_all add: loc_def)

lemma loc_end_b: "loc D b t \<Longrightarrow> loc D (end_b b) t"
  by (simp add: end_b_def loc_consume)

lemma loc_comma_b:
  "loc D b t \<Longrightarrow> D c '','' \<Longrightarrow>
   loc D (comma_b c b) (t @ (if endScheduled b then [] else sep (firstInserted b)))"
  using loc_add_b[of D b t c "'',''"]
  by (auto simp: comma_b_def sep_def add_b_def)

lemma locI:
  "list_all2 D (map fst (piped b)) ps \<Longrightarrow> list_all2 D (queue b) qs \<Longrightarrow>
   t = written b @ concat (map2 drop (map snd (piped b)) ps) @ concat qs \<Longrightarrow> loc D b t"
  by (auto simp: loc_def)

lemma den_prefix: "den s R n t \<Longrightarrow> \<exists>x. t = written (s ! n) @ x"
  by (auto simp: den_iff loc_def)

lemma den_length: "den s R n t \<Longrightarrow> n < length s"
  by (simp add: den_iff)

lemma node_ok_ended_idle:
  assumes "node_ok L W n b" and "ended b"
  shows "piped b = [] \<and> queue b = []"
proof -
  have "queue b = [] \<and> current b = None"
    using assms by (auto simp: node_ok_def split: if_splits)
  moreover have "map fst (piped b) = (case current b of None \<Rightarrow> [] | Some c \<Rightarrow> [c])"
    using assms(1) by (simp add: node_ok_def)
  ultimately show ?thesis by simp
qed

lemma den_ended:
  assumes "heap_ok s" and "den s R n t" and "ended (s ! n)" and "R n = []"
  shows "t = written (s ! n)"
proof -
  have n: "n < length s" using assms(2) by (rule den_length)
  have "node_ok (length s) (\<lambda>c. length (written (s ! c))) n (s ! n)"
    using assms(1) n by (simp add: heap_ok_def)
  from node_ok_ended_idle[OF this assms(3)] assms(2,4) show ?thesis
    by (auto simp: den_iff loc_def)
qed

lemma resid_ended [simp]: "resid k True fi S = []"
proof (cases S)
  case (Script cs)
  then show ?thesis by (cases cs) auto
qed

lemma resid_value [simp]: "resid ValueK e fi (Script cs) = []"
  by (induction cs) (auto simp: has_method_def)

lemma resid_of_ended:
  assumes "heap_ok s" and "n < length s" and "ended (s ! n)"
  shows "resid_of s ts n = []"
proof (cases "kind (s ! n) = ValueK")
  case True
  then show ?thesis by (cases "ts n") (simp add: resid_of_def)
next
  case False
  have "node_ok (length s) (\<lambda>c. length (written (s ! c))) n (s ! n)"
    using assms(1,2) by (simp add: heap_ok_def)
  then have "endScheduled (s ! n)" using False assms(3) by (auto simp: node_ok_def)
  then show ?thesis by (simp add: resid_of_def)
qed

lemma den_flow:
  assumes ok: "heap_ok s" and d: "d < length s" and den: "den s R m t"
  shows "den (flow d c s) R m t"
proof (cases "map_of (piped (s ! d)) c")
  case None
  then show ?thesis using den by (simp add: flow_def)
next
  case (Some k)
  have nok: "node_ok (length s) (\<lambda>c. length (written (s ! c))) d (s ! d)"
    using ok d by (simp add: heap_ok_def)
  from piped_single[OF nok Some] have p: "piped (s ! d) = [(c, k)]" by simp
  from nok p have c: "d < c" "c < length s" "k \<le> length (written (s ! c))"
    by (auto simp: node_ok_def)
  define s' where "s' = flow d c s"
  have s': "s' = upd d (\<lambda>b. b\<lparr>written := written b @ drop k (written (s ! c)),
                               piped := [(c, length (written (s ! c)))]\<rparr>) s"
    unfolding s'_def flow_def Some option.case by (simp add: upd_def p)
  have sc: "s' ! c = s ! c" using c d by (simp add: s')
  have sd: "s' ! d = (s ! d)\<lparr>written := written (s ! d) @ drop k (written (s ! c)),
                               piped := [(c, length (written (s ! c)))]\<rparr>"
    using d by (simp add: s')
  have "den s' R m t"
  proof (rule den_step[OF _ _ _ den, where n = d])
    show "length s \<le> length s'" by (simp add: s')
    show "s' ! m = s ! m \<and> R m = R m" if "m < length s" "m \<noteq> d" for m
      using that d by (simp add: s')
    show "\<exists>t1. loc (den s' R) (s' ! d) t1 \<and> t1 @ R d = t0 @ R d"
      if l: "loc (den s' R) (s ! d) t0" for t0
    proof -
      from l p obtain pc qs where pc: "den s' R c pc"
        and qs: "list_all2 (den s' R) (queue (s ! d)) qs"
        and t0: "t0 = written (s ! d) @ drop k pc @ concat qs"
        by (auto simp: loc_def list_all2_Cons1)
      from den_prefix[OF pc] sc obtain x where x: "pc = written (s ! c) @ x" by auto
      have "loc (den s' R) (s' ! d)
              ((written (s ! d) @ drop k (written (s ! c)))
                 @ drop (length (written (s ! c))) pc @ concat qs)"
        by (rule locI[where ps = "[pc]" and qs = qs]) (simp_all add: sd pc qs)
      moreover have "(written (s ! d) @ drop k (written (s ! c)))
                 @ drop (length (written (s ! c))) pc @ concat qs = t0"
        using c(3) by (simp add: t0 x)
      ultimately show ?thesis by auto
    qed
  qed
  then show ?thesis by (simp add: s'_def)
qed

lemma den_childEnd:
  assumes ok: "heap_ok s" and d: "d < length s"
    and R: "\<And>m. m < length s \<Longrightarrow> ended (s ! m) \<Longrightarrow> R m = []"
    and den: "den s R m t"
  shows "den (childEnd d c s) R m t"
proof (cases "map_of (piped (s ! d)) c")
  case None
  then show ?thesis using den by (simp add: childEnd_def)
next
  case (Some k)
  show ?thesis
  proof (cases "ended (s ! c) \<and> k = length (written (s ! c))")
    case False
    then show ?thesis using den Some by (auto simp: childEnd_def)
  next
    case True
    have nok: "node_ok (length s) (\<lambda>c. length (written (s ! c))) d (s ! d)"
      using ok d by (simp add: heap_ok_def)
    from piped_single[OF nok Some] have p: "piped (s ! d) = [(c, k)]" by simp
    from nok p have c: "d < c" "c < length s" by (auto simp: node_ok_def)
    define s' where "s' = childEnd d c s"
    have s': "s' = upd d (\<lambda>b. consume_b (b\<lparr>current := None, piped := []\<rparr>)) s"
      unfolding s'_def childEnd_def Some option.case using True
      by (simp add: consume_upd upd_upd) (simp add: upd_def p)
    have ok': "heap_ok s'" unfolding s'_def by (rule heap_ok_childEnd[OF ok d])
    have sc: "s' ! c = s ! c" using c d by (simp add: s')
    have sd: "s' ! d = consume_b ((s ! d)\<lparr>current := None, piped := []\<rparr>)"
      using d by (simp add: s')
    have "den s' R m t"
    proof (rule den_step[OF _ _ _ den, where n = d])
      show "length s \<le> length s'" by (simp add: s')
      show "s' ! m = s ! m \<and> R m = R m" if "m < length s" "m \<noteq> d" for m
        using that d by (simp add: s')
      show "\<exists>t1. loc (den s' R) (s' ! d) t1 \<and> t1 @ R d = t0 @ R d"
        if l: "loc (den s' R) (s ! d) t0" for t0
      proof -
        from l p obtain pc qs where pc: "den s' R c pc"
          and qs: "list_all2 (den s' R) (queue (s ! d)) qs"
          and t0: "t0 = written (s ! d) @ drop k pc @ concat qs"
          by (auto simp: loc_def list_all2_Cons1)
        have "pc = written (s ! c)"
          using den_ended[OF ok' pc] True sc R[OF c(2)] by simp
        then have t0': "t0 = written (s ! d) @ concat qs" using True t0 by simp
        have "loc (den s' R) ((s ! d)\<lparr>current := None, piped := []\<rparr>) t0"
          by (rule locI[where ps = "[]" and qs = qs]) (simp_all add: qs t0')
        from loc_consume[OF this] have "loc (den s' R) (s' ! d) t0"
          by (simp add: sd)
        then show ?thesis by auto
      qed
    qed
    then show ?thesis by (simp add: s'_def)
  qed
qed

lemma resid_value_any [simp]: "resid ValueK e fi S = []"
  by (cases S) simp

lemma endScheduled_end_b [simp]: "endScheduled (end_b b)"
  by (simp add: end_b_def)

lemma firstInserted_consume_b [simp]: "firstInserted (consume_b b) = firstInserted b"
  by (simp add: consume_b_def split: option.splits list.splits)

lemma firstInserted_add_b [simp]: "firstInserted (add_b c b) = firstInserted b"
  by (simp add: add_b_def)

lemma firstInserted_end_b [simp]: "firstInserted (end_b b) = firstInserted b"
  by (simp add: end_b_def)

lemma firstInserted_comma_b [simp]: "firstInserted (comma_b c b)"
  by (simp add: comma_b_def)

lemma loc_comma_b':
  assumes "loc D b t" and "firstInserted b \<Longrightarrow> \<not> endScheduled b \<Longrightarrow> D c '',''"
  shows "loc D (comma_b c b) (t @ (if endScheduled b then [] else sep (firstInserted b)))"
proof (cases "firstInserted b \<and> \<not> endScheduled b")
  case True
  with loc_add_b[OF assms(1), of c "'',''"] assms(2) show ?thesis
    by (simp add: comma_b_def sep_def)
next
  case False
  then show ?thesis using assms(1) by (auto simp: comma_b_def sep_def add_b_def)
qed

lemma den_locI:
  "n < length s \<Longrightarrow> loc (den s R) (s ! n) t0 \<Longrightarrow> t = t0 @ R n \<Longrightarrow> den s R n t"
  by (auto simp: den_iff)

lemma den_raw:
  assumes "c < length s'" and "s' ! c = raw_rec q d" and "R' c = []"
  shows "den s' R' c d"
proof (rule den_locI[OF assms(1), where ?t0.0 = d])
  show "loc (den s' R') (s' ! c) d"
    by (rule locI[where ps = "[]" and qs = "[]"]) (simp_all add: assms(2) raw_rec_def)
  show "d = d @ R' c" by (simp add: assms(3))
qed

lemma den_fresh:
  assumes "c < length s'" and "s' ! c = fresh_rec k q"
  shows "den s' R' c (R' c)"
proof (rule den_locI[OF assms(1), where ?t0.0 = "[]"])
  show "loc (den s' R') (s' ! c) []"
    by (rule locI[where ps = "[]" and qs = "[]"]) (simp_all add: assms(2) fresh_rec_def)
  show "R' c = [] @ R' c" by simp
qed

lemma add_b_fresh:
  "add_b c (fresh_rec k q) = (fresh_rec k q)\<lparr>current := Some c, piped := [(c, 0)]\<rparr>"
  by (simp add: add_b_def consume_b_def fresh_rec_def)

lemma den_opened:
  assumes "o' < length s'" and "s' ! o' = add_b c (fresh_rec k q)" and "den s' R' c x"
  shows "den s' R' o' (x @ R' o')"
proof (rule den_locI[OF assms(1), where ?t0.0 = x])
  have e: "s' ! o' = (fresh_rec k q)\<lparr>current := Some c, piped := [(c, 0)]\<rparr>"
    using assms(2) by (simp only: add_b_fresh)
  show "loc (den s' R') (s' ! o') x"
    by (rule locI[where ps = "[x]" and qs = "[]"]) (simp_all add: e assms(3) fresh_rec_def)
  show "x @ R' o' = x @ R' o'" by simp
qed

lemma den_call_common:
  assumes n: "n < length s" and s': "s' = upd n F s @ news"
    and ts': "\<And>m. m < length s \<Longrightarrow> m \<noteq> n \<Longrightarrow> ts' m = ts m"
    and local: "\<And>t0. loc (den s' (resid_of s' ts')) (s ! n) t0 \<Longrightarrow>
                  loc (den s' (resid_of s' ts')) (F (s ! n)) (t0 @ a)"
    and Rn: "resid_of s ts n =
               a @ resid (kind (F (s ! n))) (endScheduled (F (s ! n)))
                     (firstInserted (F (s ! n))) (ts' n)"
    and den: "den s (resid_of s ts) m x"
  shows "den s' (resid_of s' ts') m x"
proof (rule den_step[OF _ _ _ den, where n = n])
  have sn: "s' ! n = F (s ! n)" using n by (simp add: s' nth_append)
  show "length s \<le> length s'" by (simp add: s')
  show "s' ! m = s ! m \<and> resid_of s' ts' m = resid_of s ts m" if "m < length s" "m \<noteq> n" for m
    using that n ts'[OF that] by (simp add: s' nth_append resid_of_def)
  show "\<exists>t1. loc (den s' (resid_of s' ts')) (s' ! n) t1 \<and>
             t1 @ resid_of s' ts' n = t0 @ resid_of s ts n"
    if "loc (den s' (resid_of s' ts')) (s ! n) t0" for t0
  proof (intro exI[of _ "t0 @ a"] conjI)
    show "loc (den s' (resid_of s' ts')) (s' ! n) (t0 @ a)"
      using local[OF that] by (simp add: sn)
    show "(t0 @ a) @ resid_of s' ts' n = t0 @ resid_of s ts n"
      using Rn by (simp add: sn resid_of_def)
  qed
qed

lemma den_task_only:
  assumes n: "n < length s"
    and Rn: "resid_of s ts n = resid (kind (s ! n)) (endScheduled (s ! n)) (firstInserted (s ! n)) S'"
    and den: "den s (resid_of s ts) m x"
  shows "den s (resid_of s (ts(n := S'))) m x"
proof -
  have "resid_of s (ts(n := S')) = resid_of s ts"
    using Rn by (auto simp: resid_of_def fun_eq_iff)
  then show ?thesis using den by simp
qed

lemma den_news_only:
  assumes n: "n < length s"
    and Rn: "resid_of s ts n = resid (kind (s ! n)) (endScheduled (s ! n)) (firstInserted (s ! n)) S'"
    and den: "den s (resid_of s ts) m x"
  shows "den (upd n (\<lambda>b. b) s @ news) (resid_of (upd n (\<lambda>b. b) s @ news) (ts(n := S'))) m x"
proof (rule den_call_common[OF n refl _ _ _ den, where a = "[]"])
  show "(ts(n := S')) m = ts m" if "m < length s" "m \<noteq> n" for m using that by simp
  show "loc D (s ! n) (t0 @ [])" if "loc D (s ! n) t0" for D t0 using that by simp
  show "resid_of s ts n = [] @ resid (kind (s ! n)) (endScheduled (s ! n))
          (firstInserted (s ! n)) ((ts(n := S')) n)"
    using Rn by simp
qed

lemma den_call_abs:
  assumes n: "n < length s" and s': "s' = upd n F s @ news"
    and R': "R' = resid_of s' ts'"
    and ts': "\<And>m. m < length s \<Longrightarrow> m \<noteq> n \<Longrightarrow> ts' m = ts m"
    and local: "\<And>t0. loc (den s' R') (s ! n) t0 \<Longrightarrow> loc (den s' R') (F (s ! n)) (t0 @ a)"
    and Rn: "resid_of s ts n =
               a @ resid (kind (F (s ! n))) (endScheduled (F (s ! n)))
                     (firstInserted (F (s ! n))) (ts' n)"
    and den: "den s (resid_of s ts) m x"
  shows "den s' R' m x"
  unfolding R'
proof (rule den_call_common[OF n s' ts' _ Rn den])
  fix t0
  assume "loc (den s' (resid_of s' ts')) (s ! n) t0"
  then show "loc (den s' (resid_of s' ts')) (F (s ! n)) (t0 @ a)"
    using local by (simp add: R')
qed

lemma comma_new_cases:
  "firstInserted (s ! n) \<Longrightarrow> comma_new n s = [raw_rec (Some n) '','']"
  "\<not> firstInserted (s ! n) \<Longrightarrow> comma_new n s = []"
  by (simp_all add: comma_new_def)

lemma den_close_nf:
  assumes n: "n < length s"
    and F: "F = (\<lambda>b. end_b (add_b (length s) b)) \<or> F = (\<lambda>b. end_b (end_b (add_b (length s) b)))"
    and Rn: "resid_of s ts n = (if endScheduled (s ! n) then [] else txt)"
    and den: "den s (resid_of s ts) m x"
  shows "den (upd n F s @ [raw_rec q txt])
             (resid_of (upd n F s @ [raw_rec q txt]) (ts(n := S'))) m x"
proof -
  define s' where "s' = upd n F s @ [raw_rec q txt]"
  define ts' where "ts' = ts(n := S')"
  define R' where "R' = resid_of s' ts'"
  define a where "a = (if endScheduled (s ! n) then [] else txt)"
  have new: "length s < length s'" "s' ! length s = raw_rec q txt"
    by (simp_all add: s'_def nth_append)
  have D: "den s' R' (length s) txt"
    by (rule den_raw[OF new]) (simp add: R'_def resid_of_def new raw_rec_def)
  have "den s' R' m x"
  proof (rule den_call_abs[OF n s'_def R'_def _ _ _ den, where a = a])
    show "ts' m = ts m" if "m < length s" "m \<noteq> n" for m using that by (simp add: ts'_def)
    show "loc (den s' R') (F (s ! n)) (t0 @ a)" if l: "loc (den s' R') (s ! n) t0" for t0
    proof -
      have 1: "loc (den s' R') (end_b (add_b (length s) (s ! n))) (t0 @ a)"
        unfolding a_def by (rule loc_end_b[OF loc_add_b[OF l D]])
      from F show ?thesis
      proof
        assume "F = (\<lambda>b. end_b (add_b (length s) b))"
        then show ?thesis using 1 by simp
      next
        assume "F = (\<lambda>b. end_b (end_b (add_b (length s) b)))"
        then show ?thesis using loc_end_b[OF 1] by simp
      qed
    qed
    have "endScheduled (F (s ! n))" using F by auto
    then show "resid_of s ts n = a @ resid (kind (F (s ! n))) (endScheduled (F (s ! n)))
                  (firstInserted (F (s ! n))) (ts' n)"
      using Rn by (simp add: a_def)
  qed
  then show ?thesis by (simp add: s'_def ts'_def R'_def)
qed

lemma den_open_nf:
  assumes n: "n < length s"
    and Rn: "resid_of s ts n = (if endScheduled (s ! n) then [] else txt @ resid k' False False S)"
    and den: "den s (resid_of s ts) m x"
  shows "den (upd n (\<lambda>b. end_b (add_b (length s) b)) s
                @ [add_b (Suc (length s)) (fresh_rec k' q), raw_rec (Some (length s)) txt])
             (resid_of (upd n (\<lambda>b. end_b (add_b (length s) b)) s
                @ [add_b (Suc (length s)) (fresh_rec k' q), raw_rec (Some (length s)) txt])
                (ts(n := S', length s := S))) m x"
proof -
  define s' where "s' = upd n (\<lambda>b. end_b (add_b (length s) b)) s
                @ [add_b (Suc (length s)) (fresh_rec k' q), raw_rec (Some (length s)) txt]"
  define ts' where "ts' = ts(n := S', length s := S)"
  define R' where "R' = resid_of s' ts'"
  define a where "a = (if endScheduled (s ! n) then [] else txt @ resid k' False False S)"
  have new: "length s < length s'" "s' ! length s = add_b (Suc (length s)) (fresh_rec k' q)"
    "Suc (length s) < length s'" "s' ! Suc (length s) = raw_rec (Some (length s)) txt"
    by (simp_all add: s'_def nth_append)
  have D1: "den s' R' (Suc (length s)) txt"
    by (rule den_raw[OF new(3,4)]) (simp add: R'_def resid_of_def new raw_rec_def)
  have Ro: "R' (length s) = resid k' False False S"
    by (simp add: R'_def resid_of_def new ts'_def add_b_fresh fresh_rec_def)
  have D: "den s' R' (length s) (txt @ resid k' False False S)"
    using den_opened[OF new(1,2) D1] Ro by simp
  have tn: "ts' n = S'" using n by (simp add: ts'_def)
  have "den s' R' m x"
  proof (rule den_call_abs[OF n s'_def R'_def _ _ _ den, where a = a])
    show "ts' m = ts m" if "m < length s" "m \<noteq> n" for m using that by (simp add: ts'_def)
    show "loc (den s' R') (end_b (add_b (length s) (s ! n))) (t0 @ a)"
      if l: "loc (den s' R') (s ! n) t0" for t0
      unfolding a_def by (rule loc_end_b[OF loc_add_b[OF l D]])
    show "resid_of s ts n =
            a @ resid (kind (end_b (add_b (length s) (s ! n))))
                  (endScheduled (end_b (add_b (length s) (s ! n))))
                  (firstInserted (end_b (add_b (length s) (s ! n)))) (ts' n)"
      using Rn by (simp add: a_def)
  qed
  then show ?thesis by (simp add: s'_def ts'_def R'_def)
qed

lemma den_push_nf:
  assumes n: "n < length s"
    and Rn: "resid_of s ts n =
               (if endScheduled (s ! n) then []
                else sep (firstInserted (s ! n)) @ txt @ resid (kind (s ! n)) False True S')"
    and den: "den s (resid_of s ts) m x"
  shows "den (upd n (\<lambda>b. add_b (length s + length (comma_new n s)) (comma_b (length s) b)) s
                @ (comma_new n s @ [raw_rec q txt]))
             (resid_of (upd n (\<lambda>b. add_b (length s + length (comma_new n s))
                                       (comma_b (length s) b)) s
                @ (comma_new n s @ [raw_rec q txt])) (ts(n := S'))) m x"
proof -
  define c where "c = length s + length (comma_new n s)"
  define s' where "s' = upd n (\<lambda>b. add_b c (comma_b (length s) b)) s
                          @ (comma_new n s @ [raw_rec q txt])"
  define ts' where "ts' = ts(n := S')"
  define R' where "R' = resid_of s' ts'"
  define a1 where "a1 = (if endScheduled (s ! n) then [] else sep (firstInserted (s ! n)))"
  define a2 where "a2 = (if endScheduled (s ! n) then [] else txt)"
  have new: "c < length s'" "s' ! c = raw_rec q txt"
    by (simp_all add: s'_def c_def nth_append)
  have D: "den s' R' c txt"
    by (rule den_raw[OF new]) (simp add: R'_def resid_of_def new raw_rec_def)
  have Dc: "den s' R' (length s) '',''" if "firstInserted (s ! n)"
  proof (rule den_raw)
    show "length s < length s'" by (simp add: s'_def)
    show "s' ! length s = raw_rec (Some n) '',''"
      using that by (simp add: s'_def nth_append comma_new_cases)
    then show "R' (length s) = []" by (simp add: R'_def resid_of_def raw_rec_def)
  qed
  have "den s' R' m x"
  proof (rule den_call_abs[OF n s'_def R'_def _ _ _ den, where a = "a1 @ a2"])
    show "ts' m = ts m" if "m < length s" "m \<noteq> n" for m using that by (simp add: ts'_def)
    show "loc (den s' R') (add_b c (comma_b (length s) (s ! n))) (t0 @ a1 @ a2)"
      if l: "loc (den s' R') (s ! n) t0" for t0
    proof -
      have 1: "loc (den s' R') (comma_b (length s) (s ! n)) (t0 @ a1)"
        unfolding a1_def by (rule loc_comma_b'[OF l]) (rule Dc)
      have "loc (den s' R') (add_b c (comma_b (length s) (s ! n)))
              ((t0 @ a1) @ (if endScheduled (comma_b (length s) (s ! n)) then [] else txt))"
        by (rule loc_add_b[OF 1 D])
      then show ?thesis by (simp add: a2_def)
    qed
    show "resid_of s ts n =
            (a1 @ a2) @ resid (kind (add_b c (comma_b (length s) (s ! n))))
                  (endScheduled (add_b c (comma_b (length s) (s ! n))))
                  (firstInserted (add_b c (comma_b (length s) (s ! n)))) (ts' n)"
      using Rn n by (simp add: a1_def a2_def ts'_def)
  qed
  then show ?thesis by (simp add: s'_def ts'_def R'_def c_def)
qed

lemma den_throw_nf:
  assumes n: "n < length s"
    and Rn: "resid_of s ts n =
               (if endScheduled (s ! n) then []
                else sep (firstInserted (s ! n)) @ resid (kind (s ! n)) False True S')"
    and den: "den s (resid_of s ts) m x"
  shows "den (upd n (\<lambda>b. comma_b (length s) b) s @ (comma_new n s @ [fresh_rec ValueK q]))
             (resid_of (upd n (\<lambda>b. comma_b (length s) b) s
                @ (comma_new n s @ [fresh_rec ValueK q])) (ts(n := S'))) m x"
proof -
  define s' where "s' = upd n (\<lambda>b. comma_b (length s) b) s
                          @ (comma_new n s @ [fresh_rec ValueK q])"
  define ts' where "ts' = ts(n := S')"
  define R' where "R' = resid_of s' ts'"
  define a1 where "a1 = (if endScheduled (s ! n) then [] else sep (firstInserted (s ! n)))"
  have Dc: "den s' R' (length s) '',''" if "firstInserted (s ! n)"
  proof (rule den_raw)
    show "length s < length s'" by (simp add: s'_def)
    show "s' ! length s = raw_rec (Some n) '',''"
      using that by (simp add: s'_def nth_append comma_new_cases)
    then show "R' (length s) = []" by (simp add: R'_def resid_of_def raw_rec_def)
  qed
  have "den s' R' m x"
  proof (rule den_call_abs[OF n s'_def R'_def _ _ _ den, where a = a1])
    show "ts' m = ts m" if "m < length s" "m \<noteq> n" for m using that by (simp add: ts'_def)
    show "loc (den s' R') (comma_b (length s) (s ! n)) (t0 @ a1)"
      if l: "loc (den s' R') (s ! n) t0" for t0
      unfolding a1_def by (rule loc_comma_b'[OF l]) (rule Dc)
    show "resid_of s ts n =
            a1 @ resid (kind (comma_b (length s) (s ! n)))
                  (endScheduled (comma_b (length s) (s ! n)))
                  (firstInserted (comma_b (length s) (s ! n))) (ts' n)"
      using Rn n by (simp add: a1_def ts'_def)
  qed
  then show ?thesis by (simp add: s'_def ts'_def R'_def)
qed

lemma den_member_open_nf:
  assumes n: "n < length s"
    and Rn: "resid_of s ts n =
               (if endScheduled (s ! n) then []
                else sep (firstInserted (s ! n)) @ txt @ resid JsonK False False S
                       @ resid (kind (s ! n)) False True S')"
    and den: "den s (resid_of s ts) m x"
  shows "den (upd n (\<lambda>b. add_b (length s)
                            (add_b (Suc (length s) + length (comma_new n s))
                               (comma_b (Suc (length s)) b))) s
                @ ([fresh_rec JsonK q] @ comma_new n s @ [raw_rec q' txt]))
             (resid_of (upd n (\<lambda>b. add_b (length s)
                            (add_b (Suc (length s) + length (comma_new n s))
                               (comma_b (Suc (length s)) b))) s
                @ ([fresh_rec JsonK q] @ comma_new n s @ [raw_rec q' txt]))
                (ts(n := S', length s := S))) m x"
proof -
  define c where "c = Suc (length s) + length (comma_new n s)"
  define s' where "s' = upd n (\<lambda>b. add_b (length s) (add_b c (comma_b (Suc (length s)) b))) s
                          @ ([fresh_rec JsonK q] @ comma_new n s @ [raw_rec q' txt])"
  define ts' where "ts' = ts(n := S', length s := S)"
  define R' where "R' = resid_of s' ts'"
  define a1 where "a1 = (if endScheduled (s ! n) then [] else sep (firstInserted (s ! n)))"
  define a2 where "a2 = (if endScheduled (s ! n) then [] else txt)"
  define a3 where "a3 = (if endScheduled (s ! n) then [] else resid JsonK False False S)"
  have new: "c < length s'" "s' ! c = raw_rec q' txt"
    by (simp_all add: s'_def c_def nth_append)
  have newj: "length s < length s'" "s' ! length s = fresh_rec JsonK q"
    by (simp_all add: s'_def nth_append)
  have D: "den s' R' c txt"
    by (rule den_raw[OF new]) (simp add: R'_def resid_of_def new raw_rec_def)
  have Rj: "R' (length s) = resid JsonK False False S"
    by (simp add: R'_def resid_of_def newj ts'_def fresh_rec_def)
  have Dj: "den s' R' (length s) (resid JsonK False False S)"
    using den_fresh[OF newj, of R'] Rj by simp
  have Dc: "den s' R' (Suc (length s)) '',''" if "firstInserted (s ! n)"
  proof (rule den_raw)
    show "Suc (length s) < length s'" by (simp add: s'_def)
    show "s' ! Suc (length s) = raw_rec (Some n) '',''"
      using that by (simp add: s'_def nth_append comma_new_cases)
    then show "R' (Suc (length s)) = []" by (simp add: R'_def resid_of_def raw_rec_def)
  qed
  have "den s' R' m x"
  proof (rule den_call_abs[OF n s'_def R'_def _ _ _ den, where a = "a1 @ a2 @ a3"])
    show "ts' m = ts m" if "m < length s" "m \<noteq> n" for m using that by (simp add: ts'_def)
    show "loc (den s' R') (add_b (length s) (add_b c (comma_b (Suc (length s)) (s ! n))))
            (t0 @ a1 @ a2 @ a3)"
      if l: "loc (den s' R') (s ! n) t0" for t0
    proof -
      have 1: "loc (den s' R') (comma_b (Suc (length s)) (s ! n)) (t0 @ a1)"
        unfolding a1_def by (rule loc_comma_b'[OF l]) (rule Dc)
      have 2: "loc (den s' R') (add_b c (comma_b (Suc (length s)) (s ! n)))
              ((t0 @ a1) @ (if endScheduled (comma_b (Suc (length s)) (s ! n)) then [] else txt))"
        by (rule loc_add_b[OF 1 D])
      have "loc (den s' R') (add_b (length s) (add_b c (comma_b (Suc (length s)) (s ! n))))
              (((t0 @ a1) @ (if endScheduled (comma_b (Suc (length s)) (s ! n)) then [] else txt))
                @ (if endScheduled (add_b c (comma_b (Suc (length s)) (s ! n))) then []
                   else resid JsonK False False S))"
        by (rule loc_add_b[OF 2 Dj])
      then show ?thesis by (simp add: a2_def a3_def)
    qed
    show "resid_of s ts n =
            (a1 @ a2 @ a3)
              @ resid (kind (add_b (length s) (add_b c (comma_b (Suc (length s)) (s ! n)))))
                  (endScheduled (add_b (length s) (add_b c (comma_b (Suc (length s)) (s ! n)))))
                  (firstInserted (add_b (length s) (add_b c (comma_b (Suc (length s)) (s ! n)))))
                  (ts' n)"
      using Rn n by (simp add: a1_def a2_def a3_def ts'_def)
  qed
  then show ?thesis by (simp add: s'_def ts'_def R'_def c_def)
qed

lemma den_item_open_nf:
  assumes n: "n < length s"
    and Rn: "resid_of s ts n =
               (if endScheduled (s ! n) then []
                else sep (firstInserted (s ! n)) @ resid JsonK False False S
                       @ resid (kind (s ! n)) False True S')"
    and den: "den s (resid_of s ts) m x"
  shows "den (upd n (\<lambda>b. add_b (length s) (comma_b (Suc (length s)) b)) s
                @ ([fresh_rec JsonK q] @ comma_new n s))
             (resid_of (upd n (\<lambda>b. add_b (length s) (comma_b (Suc (length s)) b)) s
                @ ([fresh_rec JsonK q] @ comma_new n s))
                (ts(n := S', length s := S))) m x"
proof -
  define s' where "s' = upd n (\<lambda>b. add_b (length s) (comma_b (Suc (length s)) b)) s
                          @ ([fresh_rec JsonK q] @ comma_new n s)"
  define ts' where "ts' = ts(n := S', length s := S)"
  define R' where "R' = resid_of s' ts'"
  define a1 where "a1 = (if endScheduled (s ! n) then [] else sep (firstInserted (s ! n)))"
  define a3 where "a3 = (if endScheduled (s ! n) then [] else resid JsonK False False S)"
  have newj: "length s < length s'" "s' ! length s = fresh_rec JsonK q"
    by (simp_all add: s'_def nth_append)
  have Rj: "R' (length s) = resid JsonK False False S"
    by (simp add: R'_def resid_of_def newj ts'_def fresh_rec_def)
  have Dj: "den s' R' (length s) (resid JsonK False False S)"
    using den_fresh[OF newj, of R'] Rj by simp
  have Dc: "den s' R' (Suc (length s)) '',''" if "firstInserted (s ! n)"
  proof (rule den_raw)
    show "Suc (length s) < length s'" using that by (simp add: s'_def comma_new_cases)
    show "s' ! Suc (length s) = raw_rec (Some n) '',''"
      using that by (simp add: s'_def nth_append comma_new_cases)
    then show "R' (Suc (length s)) = []" by (simp add: R'_def resid_of_def raw_rec_def)
  qed
  have "den s' R' m x"
  proof (rule den_call_abs[OF n s'_def R'_def _ _ _ den, where a = "a1 @ a3"])
    show "ts' m = ts m" if "m < length s" "m \<noteq> n" for m using that by (simp add: ts'_def)
    show "loc (den s' R') (add_b (length s) (comma_b (Suc (length s)) (s ! n))) (t0 @ a1 @ a3)"
      if l: "loc (den s' R') (s ! n) t0" for t0
    proof -
      have 1: "loc (den s' R') (comma_b (Suc (length s)) (s ! n)) (t0 @ a1)"
        unfolding a1_def by (rule loc_comma_b'[OF l]) (rule Dc)
      have "loc (den s' R') (add_b (length s) (comma_b (Suc (length s)) (s ! n)))
              ((t0 @ a1) @ (if endScheduled (comma_b (Suc (length s)) (s ! n)) then []
                   else resid JsonK False False S))"
        by (rule loc_add_b[OF 1 Dj])
      then show ?thesis by (simp add: a3_def)
    qed
    show "resid_of s ts n =
            (a1 @ a3)
              @ resid (kind (add_b (length s) (comma_b (Suc (length s)) (s ! n))))
                  (endScheduled (add_b (length s) (comma_b (Suc (length s)) (s ! n))))
                  (firstInserted (add_b (length s) (comma_b (Suc (length s)) (s ! n))))
                  (ts' n)"
      using Rn n by (simp add: a1_def a3_def ts'_def)
  qed
  then show ?thesis by (simp add: s'_def ts'_def R'_def)
qed

lemma den_end_nf:
  assumes n: "n < length s"
    and Rn: "resid_of s ts n = []"
    and den: "den s (resid_of s ts) m x"
  shows "den (upd n (\<lambda>b. end_b b) s @ [])
             (resid_of (upd n (\<lambda>b. end_b b) s @ []) (ts(n := S'))) m x"
proof -
  define s' where "s' = upd n (\<lambda>b. end_b b) s @ []"
  define ts' where "ts' = ts(n := S')"
  define R' where "R' = resid_of s' ts'"
  have "den s' R' m x"
  proof (rule den_call_abs[OF n s'_def R'_def _ _ _ den, where a = "[]"])
    show "ts' m = ts m" if "m < length s" "m \<noteq> n" for m using that by (simp add: ts'_def)
    show "loc (den s' R') (end_b (s ! n)) (t0 @ [])" if l: "loc (den s' R') (s ! n) t0" for t0
      using loc_end_b[OF l] by simp
    show "resid_of s ts n =
            [] @ resid (kind (end_b (s ! n))) (endScheduled (end_b (s ! n)))
                  (firstInserted (end_b (s ! n))) (ts' n)"
      using Rn by simp
  qed
  then show ?thesis by (simp add: s'_def ts'_def R'_def)
qed

lemma call_no_method: "\<not> has_method (kind (s ! n)) f \<Longrightarrow> call n f s = (Threw NotAFunction, s)"
  by (auto simp: has_method_def call_def split: kind.splits op.splits)

lemma next_call_simple:
  "\<not> opens f \<Longrightarrow> call n f s = (r, s') \<Longrightarrow>
   next_call n (Script ((f, S) # rest)) s ts = (s', ts(n := Script rest))"
  by (cases r) (auto split: option.splits)

lemma next_call_threw:
  "call n f s = (Threw err, s') \<Longrightarrow>
   next_call n (Script ((f, S) # rest)) s ts = (s', ts(n := Script rest))"
  by simp

lemma next_call_opens:
  "opens f \<Longrightarrow> call n f s = (Returned (Some h), s') \<Longrightarrow>
   next_call n (Script ((f, S) # rest)) s ts = (s', ts(n := Script rest, h := S))"
  by simp

lemma den_next_call:
  assumes n: "n < length s" and den: "den s (resid_of s ts) m x"
  shows "den (fst (next_call n (ts n) s ts))
             (resid_of (fst (next_call n (ts n) s ts)) (snd (next_call n (ts n) s ts))) m x"
proof -
  obtain cs where tn: "ts n = Script cs" by (cases "ts n")
  show ?thesis
  proof (cases cs)
    case Nil
    then show ?thesis using den tn by simp
  next
    case (Cons fS rest)
    obtain f S where fS: "fS = (f, S)" by (cases fS)
    note tn' = tn[unfolded Cons fS]
    define k where "k = kind (s ! n)"
    define e where "e = endScheduled (s ! n)"
    define fi where "fi = firstInserted (s ! n)"
    have R: "resid_of s ts n = resid k e fi (Script ((f, S) # rest))"
      by (simp add: resid_of_def tn' k_def e_def fi_def)
    show ?thesis
    proof (cases "has_method k f")
      case False
      have c: "next_call n (ts n) s ts = (s, ts(n := Script rest))"
        unfolding tn' using False by (intro next_call_threw[OF call_no_method]) (simp add: k_def)
      have "resid_of s ts n = resid (kind (s ! n)) (endScheduled (s ! n)) (firstInserted (s ! n))
              (Script rest)"
        using False by (simp add: R) (simp add: k_def e_def fi_def)
      from den_task_only[OF n this den] show ?thesis unfolding c fst_conv snd_conv .
    next
      case True
      show ?thesis
      proof (cases f)
        case (Primitive p)
        with True have kj: "kind (s ! n) = JsonK"
          by (auto simp: has_method_def k_def split: kind.splits)
        have c: "call n f s = (Returned (parent (s ! n)),
                   upd n (\<lambda>b. end_b (end_b (add_b (length s) b))) s
                     @ [raw_rec (parent (s ! n)) (stringify_prim p)])"
          using primitive_nf[OF n] by (simp add: call_def kj Primitive)
        have o: "\<not> opens f" by (simp add: opens_def Primitive)
        have Rn: "resid_of s ts n = (if endScheduled (s ! n) then [] else stringify_prim p)"
          using True by (simp add: R Primitive) (simp add: e_def)
        show ?thesis
          unfolding tn' next_call_simple[OF o c] fst_conv snd_conv
          by (rule den_close_nf[OF n _ Rn den]) simp
      next
        case (ObjectOp d)
        with True have kj: "kind (s ! n) = JsonK"
          by (auto simp: has_method_def k_def split: kind.splits)
        show ?thesis
        proof (cases d)
          case None
          have c: "call n f s = (Returned (Some (length s)),
                     upd n (\<lambda>b. end_b (add_b (length s) b)) s
                       @ [add_b (Suc (length s)) (fresh_rec ObjectK (parent (s ! n))),
                          raw_rec (Some (length s)) ''{''])"
            using objectJ_nf[OF n] by (simp add: call_def kj ObjectOp None)
          have o: "opens f" by (simp add: opens_def ObjectOp None)
          have Rn: "resid_of s ts n =
                  (if endScheduled (s ! n) then [] else ''{'' @ resid ObjectK False False S)"
            using True by (simp add: R ObjectOp None) (simp add: e_def)
          show ?thesis
            unfolding tn' next_call_opens[OF o c] fst_conv snd_conv
            by (rule den_open_nf[OF n Rn den])
        next
          case (Some kvs)
          have o: "\<not> opens f" by (simp add: opens_def ObjectOp Some)
          show ?thesis
          proof (cases "stringify (Obj kvs)")
            case (Inl err)
            have c: "call n f s = (Threw err,
                       upd n (\<lambda>b. b) s @ [fresh_rec ValueK (parent (s ! n))])"
              using valueJ_nf[OF n, of "Obj kvs"] unfolding Inl
              by (simp add: call_def kj ObjectOp Some objectJ_def del: stringify.simps)
            have Rn: "resid_of s ts n = resid (kind (s ! n)) (endScheduled (s ! n))
                    (firstInserted (s ! n)) (Script rest)"
              using True by (simp add: R ObjectOp Some Inl del: stringify.simps)
                (simp add: k_def e_def fi_def)
            show ?thesis
              unfolding tn' next_call_simple[OF o c] fst_conv snd_conv
              by (rule den_news_only[OF n Rn den])
          next
            case (Inr t)
            have c: "call n f s = (Returned (Some n),
                       upd n (\<lambda>b. end_b (add_b (length s) b)) s @ [raw_rec (parent (s ! n)) t])"
              using valueJ_nf[OF n, of "Obj kvs"] unfolding Inr
              by (simp add: call_def kj ObjectOp Some objectJ_def del: stringify.simps)
            have Rn: "resid_of s ts n = (if endScheduled (s ! n) then [] else t)"
              using True by (simp add: R ObjectOp Some Inr del: stringify.simps) (simp add: e_def)
            show ?thesis
              unfolding tn' next_call_simple[OF o c] fst_conv snd_conv
              by (rule den_close_nf[OF n _ Rn den]) simp
          qed
        qed
      next
        case (ArrayOp d)
        with True have kj: "kind (s ! n) = JsonK"
          by (auto simp: has_method_def k_def split: kind.splits)
        show ?thesis
        proof (cases d)
          case None
          have c: "call n f s = (Returned (Some (length s)),
                     upd n (\<lambda>b. end_b (add_b (length s) b)) s
                       @ [add_b (Suc (length s)) (fresh_rec ArrayK (parent (s ! n))),
                          raw_rec (Some (length s)) ''[''])"
            using arrayJ_nf[OF n] by (simp add: call_def kj ArrayOp None)
          have o: "opens f" by (simp add: opens_def ArrayOp None)
          have Rn: "resid_of s ts n =
                  (if endScheduled (s ! n) then [] else ''['' @ resid ArrayK False False S)"
            using True by (simp add: R ArrayOp None) (simp add: e_def)
          show ?thesis
            unfolding tn' next_call_opens[OF o c] fst_conv snd_conv
            by (rule den_open_nf[OF n Rn den])
        next
          case (Some vs)
          have o: "\<not> opens f" by (simp add: opens_def ArrayOp Some)
          show ?thesis
          proof (cases "stringify (Arr vs)")
            case (Inl err)
            have c: "call n f s = (Threw err,
                       upd n (\<lambda>b. b) s @ [fresh_rec ValueK (parent (s ! n))])"
              using valueJ_nf[OF n, of "Arr vs"] unfolding Inl
              by (simp add: call_def kj ArrayOp Some arrayJ_def del: stringify.simps)
            have Rn: "resid_of s ts n = resid (kind (s ! n)) (endScheduled (s ! n))
                    (firstInserted (s ! n)) (Script rest)"
              using True by (simp add: R ArrayOp Some Inl del: stringify.simps)
                (simp add: k_def e_def fi_def)
            show ?thesis
              unfolding tn' next_call_simple[OF o c] fst_conv snd_conv
              by (rule den_news_only[OF n Rn den])
          next
            case (Inr t)
            have c: "call n f s = (Returned (Some n),
                       upd n (\<lambda>b. end_b (add_b (length s) b)) s @ [raw_rec (parent (s ! n)) t])"
              using valueJ_nf[OF n, of "Arr vs"] unfolding Inr
              by (simp add: call_def kj ArrayOp Some arrayJ_def del: stringify.simps)
            have Rn: "resid_of s ts n = (if endScheduled (s ! n) then [] else t)"
              using True by (simp add: R ArrayOp Some Inr del: stringify.simps) (simp add: e_def)
            show ?thesis
              unfolding tn' next_call_simple[OF o c] fst_conv snd_conv
              by (rule den_close_nf[OF n _ Rn den]) simp
          qed
        qed
      next
        case (AddProperty key a)
        with True have kj: "kind (s ! n) = ObjectK"
          by (auto simp: has_method_def k_def split: kind.splits)
        have ko: "k = ObjectK" using kj by (simp add: k_def)
        show ?thesis
        proof (cases "not_undefined a")
          case nu: False
          have c: "call n f s = (Returned (Some (length s)),
                     upd n (\<lambda>b. add_b (length s)
                                  (add_b (Suc (length s) + length (comma_new n s))
                                     (comma_b (Suc (length s)) b))) s
                       @ ([fresh_rec JsonK (Some n)] @ comma_new n s
                            @ [raw_rec (Some n) (dq # key @ dq # '':'')]))"
            using addProperty_nf[OF n nu] by (simp add: call_def kj AddProperty)
          have o: "opens f" using nu by (simp add: opens_def AddProperty)
          have Rn: "resid_of s ts n =
                  (if endScheduled (s ! n) then []
                   else sep (firstInserted (s ! n)) @ (dq # key @ dq # '':'')
                          @ resid JsonK False False S @ resid (kind (s ! n)) False True (Script rest))"
            using True nu
            by (cases a) (simp_all add: R AddProperty not_undefined_def ko e_def fi_def kj)
          show ?thesis
            unfolding tn' next_call_opens[OF o c] fst_conv snd_conv
            by (rule den_member_open_nf[OF n Rn den])
        next
          case nu: True
          then obtain v where a: "a = Given v" by (cases a) (auto simp: not_undefined_def)
          have o: "\<not> opens f" using nu by (simp add: opens_def AddProperty)
          show ?thesis
          proof (cases "stringify v")
            case (Inl err)
            have c: "call n f s = (Threw err,
                       upd n (\<lambda>b. comma_b (length s) b) s
                         @ (comma_new n s @ [fresh_rec ValueK (Some n)]))"
              using pushProperty_nf[OF n, of key v] unfolding Inl
              by (simp add: call_def kj AddProperty a addProperty_given)
            have Rn: "resid_of s ts n =
                    (if endScheduled (s ! n) then []
                     else sep (firstInserted (s ! n)) @ resid (kind (s ! n)) False True (Script rest))"
              using True by (simp add: R AddProperty a Inl ko e_def fi_def kj)
            show ?thesis
              unfolding tn' next_call_simple[OF o c] fst_conv snd_conv
              by (rule den_throw_nf[OF n Rn den])
          next
            case (Inr t)
            have c: "call n f s = (Returned (Some n),
                       upd n (\<lambda>b. add_b (length s + length (comma_new n s))
                                    (comma_b (length s) b)) s
                         @ (comma_new n s @ [raw_rec (Some n) (dq # key @ dq # '':'' @ t)]))"
              using pushProperty_nf[OF n, of key v] unfolding Inr
              by (simp add: call_def kj AddProperty a addProperty_given)
            have Rn: "resid_of s ts n =
                    (if endScheduled (s ! n) then []
                     else sep (firstInserted (s ! n)) @ (dq # key @ dq # '':'' @ t)
                            @ resid (kind (s ! n)) False True (Script rest))"
              using True by (simp add: R AddProperty a Inr ko e_def fi_def kj)
            show ?thesis
              unfolding tn' next_call_simple[OF o c] fst_conv snd_conv
              by (rule den_push_nf[OF n Rn den])
          qed
        qed
      next
        case (AddItem a)
        with True have kj: "kind (s ! n) = ArrayK"
          by (auto simp: has_method_def k_def split: kind.splits)
        have ko: "k = ArrayK" using kj by (simp add: k_def)
        show ?thesis
        proof (cases "not_undefined a")
          case nu: False
          have c: "call n f s = (Returned (Some (length s)),
                     upd n (\<lambda>b. add_b (length s) (comma_b (Suc (length s)) b)) s
                       @ ([fresh_rec JsonK (Some n)] @ comma_new n s))"
            using addItem_nf[OF n nu] by (simp add: call_def kj AddItem)
          have o: "opens f" using nu by (simp add: opens_def AddItem)
          have Rn: "resid_of s ts n =
                  (if endScheduled (s ! n) then []
                   else sep (firstInserted (s ! n))
                          @ resid JsonK False False S @ resid (kind (s ! n)) False True (Script rest))"
            using True nu
            by (cases a) (simp_all add: R AddItem not_undefined_def ko e_def fi_def kj)
          show ?thesis
            unfolding tn' next_call_opens[OF o c] fst_conv snd_conv
            by (rule den_item_open_nf[OF n Rn den])
        next
          case nu: True
          then obtain v where a: "a = Given v" by (cases a) (auto simp: not_undefined_def)
          have o: "\<not> opens f" using nu by (simp add: opens_def AddItem)
          show ?thesis
          proof (cases "stringify v")
            case (Inl err)
            have c: "call n f s = (Threw err,
                       upd n (\<lambda>b. comma_b (length s) b) s
                         @ (comma_new n s @ [fresh_rec ValueK (Some n)]))"
              using pushItem_nf[OF n, of v] unfolding Inl
              by (simp add: call_def kj AddItem a addItem_given)
            have Rn: "resid_of s ts n =
                    (if endScheduled (s ! n) then []
                     else sep (firstInserted (s ! n)) @ resid (kind (s ! n)) False True (Script rest))"
              using True by (simp add: R AddItem a Inl ko e_def fi_def kj)
            show ?thesis
              unfolding tn' next_call_simple[OF o c] fst_conv snd_conv
              by (rule den_throw_nf[OF n Rn den])
          next
            case (Inr t)
            have c: "call n f s = (Returned (Some n),
                       upd n (\<lambda>b. add_b (length s + length (comma_new n s))
                                    (comma_b (length s) b)) s
                         @ (comma_new n s @ [raw_rec (Some n) t]))"
              using pushItem_nf[OF n, of v] unfolding Inr
              by (simp add: call_def kj AddItem a addItem_given)
            have Rn: "resid_of s ts n =
                    (if endScheduled (s ! n) then []
                     else sep (firstInserted (s ! n)) @ t
                            @ resid (kind (s ! n)) False True (Script rest))"
              using True by (simp add: R AddItem a Inr ko e_def fi_def kj)
            show ?thesis
              unfolding tn' next_call_simple[OF o c] fst_conv snd_conv
              by (rule den_push_nf[OF n Rn den])
          qed
        qed
      next
        case EndOp
        have o: "\<not> opens f" by (simp add: opens_def EndOp)
        from True EndOp consider "kind (s ! n) = JsonK" | "kind (s ! n) = ObjectK"
          | "kind (s ! n) = ArrayK"
          by (auto simp: has_method_def k_def split: kind.splits)
        then show ?thesis
        proof cases
          case 1
          have c: "call n f s = (Returned (parent (s ! n)), upd n (\<lambda>b. end_b b) s @ [])"
            using endJ_nf[OF n] by (simp add: call_def 1 EndOp)
          have Rn: "resid_of s ts n = []"
            using True 1 by (simp add: R EndOp k_def)
          show ?thesis
            unfolding tn' next_call_simple[OF o c] fst_conv snd_conv
            by (rule den_end_nf[OF n Rn den])
        next
          case 2
          have c: "call n f s = (Returned (parent (s ! n)),
                     upd n (\<lambda>b. end_b (add_b (length s) b)) s @ [raw_rec (Some n) ''}''])"
            using endO_nf[OF n] by (simp add: call_def 2 EndOp)
          have Rn: "resid_of s ts n = (if endScheduled (s ! n) then [] else ''}'')"
            using True 2 by (simp add: R EndOp k_def e_def)
          show ?thesis
            unfolding tn' next_call_simple[OF o c] fst_conv snd_conv
            by (rule den_close_nf[OF n _ Rn den]) simp
        next
          case 3
          have c: "call n f s = (Returned (parent (s ! n)),
                     upd n (\<lambda>b. end_b (add_b (length s) b)) s @ [raw_rec (Some n) '']''])"
            using endA_nf[OF n] by (simp add: call_def 3 EndOp)
          have Rn: "resid_of s ts n = (if endScheduled (s ! n) then [] else '']'')"
            using True 3 by (simp add: R EndOp k_def e_def)
          show ?thesis
            unfolding tn' next_call_simple[OF o c] fst_conv snd_conv
            by (rule den_close_nf[OF n _ Rn den]) simp
        qed
      qed
    qed
  qed
qed

lemma sinv_start: "sinv S (start S)"
proof -
  have c: "createBuilder = [fresh_rec JsonK None]"
    by (simp add: createBuilder_def new_builder_eq)
  have "den createBuilder (resid_of createBuilder ((\<lambda>n. Script [])(0 := S))) 0
          (resid_of createBuilder ((\<lambda>n. Script [])(0 := S)) 0)"
    by (rule den_fresh[where k = JsonK and q = None]) (simp_all add: c)
  moreover have "resid_of createBuilder ((\<lambda>n. Script [])(0 := S)) 0 = render S"
    by (simp add: resid_of_def render_def c fresh_rec_def)
  ultimately show ?thesis by (simp add: sinv_def start_def reach_init)
qed

lemma reach_next_call:
  assumes "reach s" and "n < length s"
  shows "reach (fst (next_call n (ts n) s ts))"
proof -
  obtain cs where tn: "ts n = Script cs" by (cases "ts n")
  show ?thesis
  proof (cases cs)
    case Nil
    then show ?thesis using assms tn by simp
  next
    case (Cons fS rest)
    obtain f S where fS: "fS = (f, S)" by (cases fS)
    obtain r s' where c: "call n f s = (r, s')" by (cases "call n f s")
    have "fst (next_call n (ts n) s ts) = s'"
      unfolding tn Cons fS using c by (cases r) (auto split: option.splits)
    also have "s' = fire (Call n f) s" using c assms(2) by (simp add: fire_def)
    finally show ?thesis using reach_fire[OF assms(1)] by simp
  qed
qed

lemma resid_of_flow: "resid_of (flow d c s) ts = resid_of s ts"
proof (cases "d < length s")
  case True
  then show ?thesis
    by (auto simp: flow_def resid_of_def fun_eq_iff split: option.splits)
next
  case False
  then show ?thesis by (auto simp: flow_def upd_def not_less list_update_beyond split: option.splits)
qed

lemma resid_of_childEnd: "resid_of (childEnd d c s) ts = resid_of s ts"
proof (cases "d < length s")
  case True
  then show ?thesis
    by (auto simp: childEnd_def resid_of_def fun_eq_iff consume_upd upd_upd split: option.splits)
next
  case False
  then show ?thesis
    by (auto simp: childEnd_def upd_def consume_upd not_less list_update_beyond split: option.splits)
qed

lemma sinv_smove: "sinv S c \<Longrightarrow> sinv S (smove m c)"
proof -
  assume i: "sinv S c"
  obtain s ts where c: "c = (s, ts)" by (cases c)
  from i c have r: "reach s" and d: "den s (resid_of s ts) 0 (render S)"
    by (simp_all add: sinv_def)
  have ok: "heap_ok s" by (rule reach_heap_ok[OF r])
  show ?thesis
  proof (cases m)
    case (Next n)
    show ?thesis
    proof (cases "n < length s")
      case True
      then show ?thesis
        using reach_next_call[OF r True, of ts] den_next_call[OF True d]
        by (simp add: sinv_def c Next)
    next
      case False
      then show ?thesis using i by (simp add: c Next)
    qed
  next
    case (Copy d' c')
    have "den (fire (Flow d' c') s) (resid_of (fire (Flow d' c') s) ts) 0 (render S)"
      using den_flow[OF ok _ d, of d' c'] d by (simp add: fire_def resid_of_flow)
    then show ?thesis using reach_fire[OF r, of "Flow d' c'"] by (simp add: sinv_def c Copy)
  next
    case (Ended d' c')
    have "den (childEnd d' c' s) (resid_of s ts) 0 (render S)" if "d' < length s"
      by (rule den_childEnd[OF ok that _ d]) (rule resid_of_ended[OF ok])
    then have "den (fire (ChildEnd d' c') s) (resid_of (fire (ChildEnd d' c') s) ts) 0 (render S)"
      using d by (simp add: fire_def resid_of_childEnd)
    then show ?thesis using reach_fire[OF r, of "ChildEnd d' c'"] by (simp add: sinv_def c Ended)
  qed
qed

lemma sinv_sched: "sinv S c \<Longrightarrow> sinv S (sched ms c)"
  by (induction ms arbitrary: c) (simp_all add: sinv_smove)

lemma collected_render:
  assumes "collected (fst (sched ms (start S))) 0 = Some t"
  shows "t = render S"
proof -
  define s where "s = fst (sched ms (start S))"
  define ts where "ts = snd (sched ms (start S))"
  have i: "sinv S (s, ts)" using sinv_sched[OF sinv_start, of S ms] by (simp add: s_def ts_def)
  then have r: "reach s" and d: "den s (resid_of s ts) 0 (render S)" by (simp_all add: sinv_def)
  have ok: "heap_ok s" by (rule reach_heap_ok[OF r])
  from assms have e: "ended (s ! 0)" and t: "t = written (s ! 0)"
    by (auto simp: collected_def s_def split: if_splits)
  have "render S = written (s ! 0)"
    by (rule den_ended[OF ok d e]) (rule resid_of_ended[OF ok den_length[OF d] e])
  with t show ?thesis by simp
qed

text \<open>
  Claim C2. A script gives every context its own sequence of calls, in order. Whatever
  the schedule (the order in which the contexts make their next call, and the moments at
  which the streams copy and end), once the root stream has ended its text is the same.
\<close>

theorem order_invariance:
  assumes "collected (fst (sched ms1 (start S))) 0 = Some t1"
    and "collected (fst (sched ms2 (start S))) 0 = Some t2"
  shows "t1 = t2"
  using collected_render[OF assms(1)] collected_render[OF assms(2)] by simp

theorem order_invariance_witness:
  "collected (fst (sched in_program_order (start two_items))) 0 = Some ''[1,2]'' \<and>
   collected (fst (sched item_populated_last (start two_items))) 0 = Some ''[1,2]''"
proof -
  have 1: "collected (fst (sched in_program_order (start two_items))) 0 = Some ''[1,2]''"
    by code_simp
  have e: "ended (fst (sched item_populated_last (start two_items)) ! 0)" by code_simp
  then obtain t2 where 2: "collected (fst (sched item_populated_last (start two_items))) 0 = Some t2"
    by (simp add: collected_def)
  from order_invariance[OF 1 2] 1 2 show ?thesis by simp
qed

end
